theory Spec2Isabelle
  imports Main
begin

section \<open>Data model\<close>

text \<open>
  The identifiers of commits and the names of tags are JavaScript strings.  The records
  hold the fields of the service's objects that \<^verbatim>\<open>main.ts\<close> reads:
  \<^verbatim>\<open>tag.name\<close> and \<^verbatim>\<open>tag.commit.sha\<close> of a tag, \<^verbatim>\<open>commit.sha\<close> and
  \<^verbatim>\<open>commit.parents[i].sha\<close> of a commit.
\<close>

record Tag =
  tag_name :: string
  tag_commit_sha :: string

record Commit =
  commit_sha :: string
  commit_parents :: "string list"

text \<open>
  A value thrown by an operation: an instance of \<^verbatim>\<open>Error\<close> with its message, or any
  other JavaScript value (the \<^verbatim>\<open>catch\<close> clause of \<^verbatim>\<open>run\<close> tells them apart with
  \<^verbatim>\<open>instanceof\<close>).
\<close>

datatype thrown = Error string | Other string

text \<open>
  The hosting service, as the client object the functions receive.  A request names the
  page size and the page; \<^verbatim>\<open>listCommits\<close> also names the commit the history starts
  at.  A request answers with a page or throws.  Several requests can be in flight at
  once (\<^verbatim>\<open>Promise.all\<close> in \<^verbatim>\<open>parents\<close>); \<open>arrival\<close> says which of the requests in
  flight (commit and page of each) is answered next.
\<close>

record service =
  listTags :: "nat \<Rightarrow> nat \<Rightarrow> thrown + Tag list"
  listCommits :: "string \<Rightarrow> nat \<Rightarrow> nat \<Rightarrow> thrown + Commit list"
  arrival :: "(string \<times> nat) list \<Rightarrow> nat"

definition pageSize :: nat where
  "pageSize = 100"

section \<open>getTags\<close>

text \<open>
  The \<^verbatim>\<open>do ... while\<close> loop of \<^verbatim>\<open>getTags\<close>: fetch the page, count it, advance the
  page counter, store its tags, and go on while the page was full.  The loop returns the
  map together with the final page counter, which is the number of requests made.
\<close>

definition setTags :: "Tag list \<Rightarrow> (string \<rightharpoonup> string) \<Rightarrow> (string \<rightharpoonup> string)" where
  "setTags tags result = fold (\<lambda>t m. m(tag_commit_sha t \<mapsto> tag_name t)) tags result"

partial_function (option) getTags_loop ::
  "service \<Rightarrow> nat \<Rightarrow> (string \<rightharpoonup> string) \<Rightarrow> (thrown + (string \<rightharpoonup> string) \<times> nat) option"
where
  "getTags_loop octokit page result =
     (case listTags octokit pageSize page of
        Inl e \<Rightarrow> Some (Inl e)
      | Inr tags \<Rightarrow>
          if length tags = pageSize
          then getTags_loop octokit (page + 1) (setTags tags result)
          else Some (Inr (setTags tags result, page + 1)))"

declare getTags_loop.simps [code]

definition getTags :: "service \<Rightarrow> (thrown + (string \<rightharpoonup> string)) option" where
  "getTags octokit = map_option (map_sum id fst) (getTags_loop octokit 0 Map.empty)"

section \<open>The commit provider of getHistory\<close>

text \<open>
  The state the closure \<^verbatim>\<open>provider\<close> captures: the cache \<^verbatim>\<open>commits\<close> and the page
  counter \<^verbatim>\<open>page\<close>, both created once by \<^verbatim>\<open>getHistory\<close> and shared by all calls.
\<close>

record pstate =
  commits :: "string \<rightharpoonup> Commit"
  page :: nat

fun showNat :: "nat \<Rightarrow> string" where
  "showNat n = (if n < 10 then [''0123456789'' ! n]
                else showNat (n div 10) @ [''0123456789'' ! (n mod 10)])"

declare showNat.simps [simp del]

text \<open>
  The message of the error thrown on a cache miss.  \<^verbatim>\<open>JSON.stringify\<close> renders a
  \<^verbatim>\<open>Map\<close> as \<^verbatim>\<open>{}\<close>, whatever it holds.
\<close>

definition missMessage :: "string \<Rightarrow> nat \<Rightarrow> string" where
  "missMessage hash p =
     ''commit '' @ hash @
     '' was undefined, must not happen, all commits should be loaded. {\"page\":'' @
     showNat p @ '',\"commits\":{}}''"

text \<open>
  A call of the asynchronous \<^verbatim>\<open>provider\<close> is, between two of its \<^verbatim>\<open>await\<close>s, in
  one of three states: waiting for the answer to the request it sent (for a commit and a
  page), returned, or thrown.
\<close>

datatype task = Pending string nat | Fulfilled Commit | Rejected thrown

text \<open>
  The head of the \<^verbatim>\<open>while\<close> loop: when the cache has the commit, the loop is left and
  the commit returned; otherwise the request for the current page is sent.
\<close>

definition enter :: "pstate \<Rightarrow> string \<Rightarrow> task" where
  "enter ps hash =
     (case commits ps hash of Some commit \<Rightarrow> Fulfilled commit | None \<Rightarrow> Pending hash (page ps))"

text \<open>After the loop: the lookup, and the error when the commit is still missing.\<close>

definition leave :: "pstate \<Rightarrow> string \<Rightarrow> task" where
  "leave ps hash =
     (case commits ps hash of
        None \<Rightarrow> Rejected (Error (missMessage hash (page ps)))
      | Some commit \<Rightarrow> Fulfilled commit)"

definition setCommits :: "Commit list \<Rightarrow> (string \<rightharpoonup> Commit) \<Rightarrow> (string \<rightharpoonup> Commit)" where
  "setCommits rawCommits m = fold (\<lambda>c m. m(commit_sha c \<mapsto> c)) rawCommits m"

text \<open>
  The body of the loop from the answer on: the page counter advances, the commits of the
  page are stored, a short page leaves the loop, a full one goes back to its head.
\<close>

definition respond :: "service \<Rightarrow> string \<Rightarrow> nat \<Rightarrow> pstate \<Rightarrow> task \<times> pstate" where
  "respond octokit hash p ps =
     (case listCommits octokit hash p pageSize of
        Inl e \<Rightarrow> (Rejected e, ps)
      | Inr rawCommits \<Rightarrow>
          (let ps' = ps\<lparr>page := page ps + 1, commits := setCommits rawCommits (commits ps)\<rparr>
           in if length rawCommits < pageSize then (leave ps' hash, ps') else (enter ps' hash, ps')))"

text \<open>One call of \<^verbatim>\<open>provider\<close>, awaited alone (as \<^verbatim>\<open>getHistory\<close> does).\<close>

partial_function (option) await1 ::
  "service \<Rightarrow> task \<Rightarrow> pstate \<Rightarrow> ((thrown + Commit) \<times> pstate) option"
where
  "await1 octokit t ps =
     (case t of
        Fulfilled commit \<Rightarrow> Some (Inr commit, ps)
      | Rejected e \<Rightarrow> Some (Inl e, ps)
      | Pending hash p \<Rightarrow>
          (case respond octokit hash p ps of (t', ps') \<Rightarrow> await1 octokit t' ps'))"

declare await1.simps [code]

definition provider :: "service \<Rightarrow> string \<Rightarrow> pstate \<Rightarrow> ((thrown + Commit) \<times> pstate) option" where
  "provider octokit hash ps = await1 octokit (enter ps hash) ps"

text \<open>
  \<^verbatim>\<open>Promise.all\<close> over the calls for the parents of a node.  All calls are started one
  after the other, each up to its first \<^verbatim>\<open>await\<close>; then the answers arrive in the
  order the service chooses, and each resumes its call.  The first call that throws
  rejects the whole (what the calls still pending do afterwards touches only the cache
  and the counter, which nothing reads any more); when none is pending, the results are
  returned in the order of the calls.  \<open>pendingFrom\<close> lists the requests in flight with
  the index of their call, \<open>fulfilled\<close> the commits returned.  Every request is
  answered: a service that never answers is outside the model.
\<close>

fun pendingFrom :: "nat \<Rightarrow> task list \<Rightarrow> (nat \<times> string \<times> nat) list" where
  "pendingFrom i [] = []"
| "pendingFrom i (Pending hash p # ts) = (i, hash, p) # pendingFrom (Suc i) ts"
| "pendingFrom i (t # ts) = pendingFrom (Suc i) ts"

fun fulfilled :: "task list \<Rightarrow> Commit list" where
  "fulfilled [] = []"
| "fulfilled (Fulfilled commit # ts) = commit # fulfilled ts"
| "fulfilled (t # ts) = fulfilled ts"

partial_function (option) awaitAll ::
  "service \<Rightarrow> task list \<Rightarrow> pstate \<Rightarrow> ((thrown + Commit list) \<times> pstate) option"
where
  "awaitAll octokit ts ps =
     (case pendingFrom 0 ts of
        [] \<Rightarrow> Some (Inr (fulfilled ts), ps)
      | r # rs \<Rightarrow>
          (case (r # rs) ! (arrival octokit (map snd (r # rs)) mod length (r # rs)) of
             (i, hash, p) \<Rightarrow>
               (case respond octokit hash p ps of
                  (Rejected e, ps') \<Rightarrow> Some (Inl e, ps')
                | (t', ps') \<Rightarrow> awaitAll octokit (ts[i := t']) ps')))"

declare awaitAll.simps [code]

section \<open>LazyGitCommit\<close>

text \<open>
  The nodes of the traversal are objects: \<^verbatim>\<open>findClosestTag\<close> writes their
  \<^verbatim>\<open>visited\<close> field.  The heap is the list of the objects allocated so far, and a
  reference is an index into it.  References come from allocation only, so the ones the
  queue holds are valid indices.
\<close>

record LazyGitCommit =
  sha :: string
  parentSha :: "string list"
  visited :: bool

definition newLazyGitCommit :: "Commit \<Rightarrow> LazyGitCommit" where
  "newLazyGitCommit rawCommit =
     \<lparr>sha = commit_sha rawCommit, parentSha = commit_parents rawCommit, visited = False\<rparr>"

text \<open>
  \<^verbatim>\<open>parents()\<close>: one call of the provider for each parent identifier, all awaited
  together, and a new object for each commit returned.
\<close>

definition parents ::
  "service \<Rightarrow> nat \<Rightarrow> LazyGitCommit list \<Rightarrow> pstate \<Rightarrow>
   ((thrown + nat list) \<times> LazyGitCommit list \<times> pstate) option"
where
  "parents octokit this heap ps =
     (case awaitAll octokit (map (enter ps) (parentSha (heap ! this))) ps of
        None \<Rightarrow> None
      | Some (Inl e, ps') \<Rightarrow> Some (Inl e, heap, ps')
      | Some (Inr cs, ps') \<Rightarrow>
          Some (Inr [length heap..<length heap + length cs], heap @ map newLazyGitCommit cs, ps'))"

section \<open>getHistory\<close>

definition getHistory ::
  "string \<Rightarrow> service \<Rightarrow> LazyGitCommit list \<Rightarrow>
   ((thrown + nat) \<times> LazyGitCommit list \<times> pstate) option"
where
  "getHistory hash octokit heap =
     (case provider octokit hash \<lparr>commits = Map.empty, page = 0\<rparr> of
        None \<Rightarrow> None
      | Some (Inl e, ps) \<Rightarrow> Some (Inl e, heap, ps)
      | Some (Inr c, ps) \<Rightarrow> Some (Inr (length heap), heap @ [newLazyGitCommit c], ps))"

section \<open>findClosestTag\<close>

record found =
  tag :: string
  distance :: int

text \<open>
  One turn of the loop of \<^verbatim>\<open>findClosestTag\<close> over the queue \<^verbatim>\<open>todo\<close> of
  references, where \<open>None\<close> is the \<^verbatim>\<open>null\<close> that separates the levels.  A turn
  ends the function (\<open>Inl\<close>: the value returned or thrown, with the heap as it is
  then) or leaves the state for the next turn (\<open>Inr\<close>: heap, provider state, queue and
  depth); it does neither when \<^verbatim>\<open>parents()\<close> never returns.
\<close>

definition findClosestTag_step ::
  "service \<Rightarrow> (string \<rightharpoonup> string) \<Rightarrow> LazyGitCommit list \<Rightarrow> pstate \<Rightarrow> nat option list \<Rightarrow> nat \<Rightarrow>
   (((thrown + found) \<times> LazyGitCommit list) +
    (LazyGitCommit list \<times> pstate \<times> nat option list \<times> nat)) option"
where
  "findClosestTag_step octokit tags heap ps todo depth =
     (case todo of
        [] \<Rightarrow> Some (Inl (Inr \<lparr>tag = [], distance = - 1\<rparr>, heap))
      | None # rest \<Rightarrow> Some (Inr (heap, ps, rest @ [None], depth + 1))
      | Some head # rest \<Rightarrow>
          if visited (heap ! head) then Some (Inr (heap, ps, rest, depth))
          else
            (case tags (sha (heap ! head)) of
               Some candidateTag \<Rightarrow>
                 Some (Inl (Inr \<lparr>tag = candidateTag, distance = int depth\<rparr>, heap))
             | None \<Rightarrow>
                 (case parents octokit head (heap[head := (heap ! head)\<lparr>visited := True\<rparr>]) ps of
                    None \<Rightarrow> None
                  | Some (Inl e, heap', ps') \<Rightarrow> Some (Inl (Inl e, heap'))
                  | Some (Inr ns, heap', ps') \<Rightarrow>
                      Some (Inr (heap', ps', rest @ map Some ns, depth)))))"

text \<open>The loop: turn after turn until one ends the function.\<close>

partial_function (option) findClosestTag_loop ::
  "service \<Rightarrow> (string \<rightharpoonup> string) \<Rightarrow> LazyGitCommit list \<Rightarrow> pstate \<Rightarrow> nat option list \<Rightarrow> nat \<Rightarrow>
   ((thrown + found) \<times> LazyGitCommit list) option"
where
  "findClosestTag_loop octokit tags heap ps todo depth =
     (case findClosestTag_step octokit tags heap ps todo depth of
        None \<Rightarrow> None
      | Some (Inl result) \<Rightarrow> Some result
      | Some (Inr (heap', ps', todo', depth')) \<Rightarrow>
          findClosestTag_loop octokit tags heap' ps' todo' depth')"

declare findClosestTag_loop.simps [code]

text \<open>The state after \<open>n\<close> turns of the loop, or the end reached before.\<close>

fun findClosestTag_steps ::
  "nat \<Rightarrow> service \<Rightarrow> (string \<rightharpoonup> string) \<Rightarrow> LazyGitCommit list \<Rightarrow> pstate \<Rightarrow>
   nat option list \<Rightarrow> nat \<Rightarrow>
   (((thrown + found) \<times> LazyGitCommit list) +
    (LazyGitCommit list \<times> pstate \<times> nat option list \<times> nat)) option"
where
  "findClosestTag_steps 0 octokit tags heap ps todo depth = Some (Inr (heap, ps, todo, depth))"
| "findClosestTag_steps (Suc n) octokit tags heap ps todo depth =
     (case findClosestTag_step octokit tags heap ps todo depth of
        None \<Rightarrow> None
      | Some (Inl result) \<Rightarrow> Some (Inl result)
      | Some (Inr (heap', ps', todo', depth')) \<Rightarrow>
          findClosestTag_steps n octokit tags heap' ps' todo' depth')"

definition findClosestTag ::
  "service \<Rightarrow> (string \<rightharpoonup> string) \<Rightarrow> nat \<Rightarrow> LazyGitCommit list \<Rightarrow> pstate \<Rightarrow>
   ((thrown + found) \<times> LazyGitCommit list) option"
where
  "findClosestTag octokit tags history heap ps =
     findClosestTag_loop octokit tags heap ps [Some history, None] 0"

section \<open>run\<close>

text \<open>
  What \<^verbatim>\<open>run\<close> leaves behind: the outputs set with \<^verbatim>\<open>core.setOutput\<close>, the
  content of the file named by \<^verbatim>\<open>GITHUB_ENV\<close>, and the failure set with
  \<^verbatim>\<open>core.setFailed\<close>.  Setting an output and appending to the file are taken to
  succeed; the client \<^verbatim>\<open>octokit\<close> is given, so reading the token and building the
  client are outside.
\<close>

record world =
  outputs :: "(string \<times> string) list"
  envFile :: string
  failure :: "string option"

definition setOutput :: "string \<Rightarrow> string \<Rightarrow> world \<Rightarrow> world" where
  "setOutput name v w = w\<lparr>outputs := outputs w @ [(name, v)]\<rparr>"

definition appendFileSync :: "string \<Rightarrow> world \<Rightarrow> world" where
  "appendFileSync d w = w\<lparr>envFile := envFile w @ d\<rparr>"

definition setFailed :: "string \<Rightarrow> world \<Rightarrow> world" where
  "setFailed message w = w\<lparr>failure := Some message\<rparr>"

text \<open>
  A number in a template literal.  The numbers formatted here are the depths the loop
  counts, integers far below the size at which JavaScript leaves the decimal notation.
\<close>

definition numberToString :: "int \<Rightarrow> string" where
  "numberToString i = (if i < 0 then CHR ''-'' # showNat (nat (- i)) else showNat (nat i))"

text \<open>The three cases of the version string.\<close>

definition versionOf :: "found \<Rightarrow> string \<Rightarrow> string" where
  "versionOf r GITHUB_SHA =
     (if distance r < 0 then GITHUB_SHA
      else if distance r = 0 then tag r
      else tag r @ ''-'' @ numberToString (distance r) @ ''-'' @ GITHUB_SHA)"

text \<open>The \<^verbatim>\<open>catch\<close> clause: only an \<^verbatim>\<open>Error\<close> sets the failure.\<close>

definition catchError :: "thrown \<Rightarrow> world \<Rightarrow> world" where
  "catchError error w = (case error of Error message \<Rightarrow> setFailed message w | Other v \<Rightarrow> w)"

text \<open>
  The body of \<^verbatim>\<open>run\<close>, with the function called at line 19 as the parameter
  \<open>resolve\<close>: what lines 20 to 30 do with the result does not depend on which function
  returned it.
\<close>

definition runWith ::
  "(service \<Rightarrow> (string \<rightharpoonup> string) \<Rightarrow> nat \<Rightarrow> LazyGitCommit list \<Rightarrow> pstate \<Rightarrow>
      ((thrown + found) \<times> LazyGitCommit list) option) \<Rightarrow>
   service \<Rightarrow> string \<Rightarrow> LazyGitCommit list \<Rightarrow> world \<Rightarrow> world option"
where
  "runWith resolve octokit GITHUB_SHA heap w =
     (case getTags octokit of
        None \<Rightarrow> None
      | Some (Inl e) \<Rightarrow> Some (catchError e w)
      | Some (Inr tags) \<Rightarrow>
          (case getHistory GITHUB_SHA octokit heap of
             None \<Rightarrow> None
           | Some (Inl e, heap', ps) \<Rightarrow> Some (catchError e w)
           | Some (Inr history, heap', ps) \<Rightarrow>
               (case resolve octokit tags history heap' ps of
                  None \<Rightarrow> None
                | Some (Inl e, heap'') \<Rightarrow> Some (catchError e w)
                | Some (Inr r, heap'') \<Rightarrow>
                    (let version = versionOf r GITHUB_SHA
                     in Some (appendFileSync (''VERSION='' @ version)
                               (setOutput ''version'' version w))))))"

definition run :: "service \<Rightarrow> string \<Rightarrow> LazyGitCommit list \<Rightarrow> world \<Rightarrow> world option" where
  "run = runWith findClosestTag"

section \<open>A service that pages finite lists\<close>

text \<open>
  Modelled from the spec: the hosting service is outside the repository; section 6 of
  the spec gives its two listings with stable pagination.  This is the service the
  properties about finite responses are stated for: it holds a finite
  list of tags and, for each commit, the finite list of the commits reachable from it,
  and answers a request with the page asked for, pages numbered from 0.
\<close>

definition pageOf :: "nat \<Rightarrow> nat \<Rightarrow> 'a list \<Rightarrow> 'a list" where
  "pageOf per_page p xs = take per_page (drop (p * per_page) xs)"

definition pagedService ::
  "Tag list \<Rightarrow> (string \<Rightarrow> Commit list) \<Rightarrow> ((string \<times> nat) list \<Rightarrow> nat) \<Rightarrow> service"
where
  "pagedService allTags history arr =
     \<lparr>listTags = (\<lambda>per_page p. Inr (pageOf per_page p allTags)),
      listCommits = (\<lambda>hash p per_page. Inr (pageOf per_page p (history hash))),
      arrival = arr\<rparr>"

section \<open>The ancestry graph held by the cache\<close>

text \<open>
  The cache of the provider is the part of the ancestry graph the traversal can walk
  without a request: an edge goes from a cached commit to each of its parents.
  \<open>ancestorsAt cache h n\<close> lists the commits reached from \<open>h\<close> by following \<open>n\<close>
  parent edges, one entry for each path, in the order the traversal enqueues them.
\<close>

definition parentsIn :: "(string \<rightharpoonup> Commit) \<Rightarrow> string \<Rightarrow> string list" where
  "parentsIn cache h = (case cache h of None \<Rightarrow> [] | Some c \<Rightarrow> commit_parents c)"

definition expand :: "(string \<rightharpoonup> Commit) \<Rightarrow> string list \<Rightarrow> string list" where
  "expand cache hs = concat (map (parentsIn cache) hs)"

definition ancestorsAt :: "(string \<rightharpoonup> Commit) \<Rightarrow> string \<Rightarrow> nat \<Rightarrow> string list" where
  "ancestorsAt cache h n = (expand cache ^^ n) [h]"

text \<open>
  A commit is cached when the cache holds, under its identifier, a commit of that
  identifier; a list of commits is loaded when the parents of all of them are cached.
\<close>

definition cached :: "(string \<rightharpoonup> Commit) \<Rightarrow> string \<Rightarrow> bool" where
  "cached cache h = (case cache h of None \<Rightarrow> False | Some c \<Rightarrow> commit_sha c = h)"

definition loaded :: "(string \<rightharpoonup> Commit) \<Rightarrow> string list \<Rightarrow> bool" where
  "loaded cache hs = list_all (cached cache) (expand cache hs)"

text \<open>
  The same as a relation: \<open>pathTo cache h n x\<close> when a path of \<open>n\<close> parent edges leads from
  \<open>h\<close> to \<open>x\<close>.
\<close>

inductive pathTo :: "(string \<rightharpoonup> Commit) \<Rightarrow> string \<Rightarrow> nat \<Rightarrow> string \<Rightarrow> bool"
  for cache :: "string \<rightharpoonup> Commit" and h :: string
where
  start: "pathTo cache h 0 h"
| step: "pathTo cache h n x \<Longrightarrow> y \<in> set (parentsIn cache x) \<Longrightarrow> pathTo cache h (Suc n) y"

code_pred pathTo .

text \<open>
  A node as the constructor leaves it, for a cached commit: a valid reference to an
  object that is not visited and carries the identifier and the parents of the commit.
\<close>

definition unvisitedNode :: "LazyGitCommit list \<Rightarrow> (string \<rightharpoonup> Commit) \<Rightarrow> nat \<Rightarrow> bool" where
  "unvisitedNode heap cache r =
     (r < length heap \<and> \<not> visited (heap ! r) \<and> cached cache (sha (heap ! r)) \<and>
      parentSha (heap ! r) = parentsIn cache (sha (heap ! r)))"

text \<open>
  The number of times the traversal has expanded the commit \<open>h\<close>: each expansion sets
  the \<^verbatim>\<open>visited\<close> field of one object.
\<close>

definition expansions :: "string \<Rightarrow> LazyGitCommit list \<Rightarrow> nat" where
  "expansions h heap = length (filter (\<lambda>n. sha n = h \<and> visited n) heap)"

text \<open>The cache holds every commit under the commit's own identifier.\<close>

definition cacheKeyed :: "(string \<rightharpoonup> Commit) \<Rightarrow> bool" where
  "cacheKeyed cache = (\<forall>h c. cache h = Some c \<longrightarrow> commit_sha c = h)"

section \<open>Queues that differ only in their addresses\<close>

text \<open>
  Two states of the loop are alike when their queues have the \<^verbatim>\<open>null\<close>s at the same
  places and, at the other places, valid references to equal objects, and neither queue
  holds an object twice.
\<close>

definition alike ::
  "LazyGitCommit list \<Rightarrow> nat option list \<Rightarrow> LazyGitCommit list \<Rightarrow> nat option list \<Rightarrow> bool"
where
  "alike heap1 todo1 heap2 todo2 \<longleftrightarrow>
     list_all2
       (rel_option (\<lambda>r1 r2. r1 < length heap1 \<and> r2 < length heap2 \<and> heap1 ! r1 = heap2 ! r2))
       todo1 todo2 \<and>
     distinct (filter (\<lambda>x. x \<noteq> None) todo1) \<and> distinct (filter (\<lambda>x. x \<noteq> None) todo2)"

section \<open>Concrete services and states\<close>

text \<open>The world before \<^verbatim>\<open>run\<close>: no output, an empty file, no failure.\<close>

definition world0 :: world where
  "world0 = \<lparr>outputs = [], envFile = [], failure = None\<rparr>"

text \<open>
  The history \<open>C0 \<leftarrow> C1 \<leftarrow> C2\<close> with the tag \<open>v1.0.0\<close> on \<open>C0\<close>.
\<close>

definition chainHistory :: "string \<Rightarrow> Commit list" where
  "chainHistory hash =
     (if hash = ''C2'' then
        [\<lparr>commit_sha = ''C2'', commit_parents = [''C1'']\<rparr>,
         \<lparr>commit_sha = ''C1'', commit_parents = [''C0'']\<rparr>,
         \<lparr>commit_sha = ''C0'', commit_parents = []\<rparr>]
      else [])"

definition chainService :: service where
  "chainService =
     pagedService [\<lparr>tag_name = ''v1.0.0'', tag_commit_sha = ''C0''\<rparr>] chainHistory (\<lambda>rs. 0)"

text \<open>The provider state \<^verbatim>\<open>getHistory\<close> leaves for the chain.\<close>

definition chainState :: pstate where
  "chainState = \<lparr>commits = setCommits (chainHistory ''C2'') Map.empty, page = 1\<rparr>"

text \<open>The history \<open>C0 \<leftarrow> C1 \<leftarrow> C2\<close> with no tag.\<close>

definition noTagService :: service where
  "noTagService = pagedService [] chainHistory (\<lambda>rs. 0)"

text \<open>The history \<open>C0 \<leftarrow> C1 \<leftarrow> C2\<close> with the tag \<open>v1.0.0\<close> on \<open>C2\<close> itself.\<close>

definition taggedStartService :: service where
  "taggedStartService =
     pagedService [\<lparr>tag_name = ''v1.0.0'', tag_commit_sha = ''C2''\<rparr>] chainHistory (\<lambda>rs. 0)"

text \<open>
  A resolver that returns at once what line 159 of the source returns for no tag: the empty
  tag at distance \<open>-1\<close>.
\<close>

definition notFoundResolver ::
  "service \<Rightarrow> (string \<rightharpoonup> string) \<Rightarrow> nat \<Rightarrow> LazyGitCommit list \<Rightarrow> pstate \<Rightarrow>
   ((thrown + found) \<times> LazyGitCommit list) option"
where
  "notFoundResolver octokit tags history heap ps = Some (Inr \<lparr>tag = [], distance = - 1\<rparr>, heap)"

text \<open>A tag index that maps \<open>C2\<close> to the empty name.\<close>

definition emptyNameTags :: "string \<rightharpoonup> string" where
  "emptyNameTags = setTags [\<lparr>tag_name = [], tag_commit_sha = ''C2''\<rparr>] Map.empty"

text \<open>A service whose tag listing throws a value that is not an \<^verbatim>\<open>Error\<close>.\<close>

definition throwingService :: service where
  "throwingService =
     \<lparr>listTags = (\<lambda>per_page p. Inl (Other ''boom'')),
      listCommits = (\<lambda>hash p per_page. Inr []),
      arrival = (\<lambda>rs. 0)\<rparr>"

text \<open>
  A service with no tags whose commit listing throws a value that is not an \<^verbatim>\<open>Error\<close>.
\<close>

definition commitsThrowingService :: service where
  "commitsThrowingService =
     \<lparr>listTags = (\<lambda>per_page p. Inr []),
      listCommits = (\<lambda>hash p per_page. Inl (Other ''boom'')),
      arrival = (\<lambda>rs. 0)\<rparr>"

text \<open>A repository with no tags whose history listing surfaces no commit.\<close>

definition emptyService :: service where
  "emptyService = pagedService [] (\<lambda>hash. []) (\<lambda>rs. 0)"

text \<open>
  A merge \<open>M\<close> of \<open>A\<close> and \<open>B\<close> with two paths to the tagged commit \<open>T\<close>: \<open>M, A, A2, T\<close>
  and \<open>M, B, T\<close>.  The parent \<open>X\<close> of \<open>T\<close> is not in the cache.
\<close>

definition forkCommits :: "Commit list" where
  "forkCommits =
     [\<lparr>commit_sha = ''M'', commit_parents = [''A'', ''B'']\<rparr>,
      \<lparr>commit_sha = ''A'', commit_parents = [''A2'']\<rparr>,
      \<lparr>commit_sha = ''B'', commit_parents = [''T'']\<rparr>,
      \<lparr>commit_sha = ''A2'', commit_parents = [''T'']\<rparr>,
      \<lparr>commit_sha = ''T'', commit_parents = [''X'']\<rparr>]"

definition forkState :: pstate where
  "forkState = \<lparr>commits = setCommits forkCommits Map.empty, page = 1\<rparr>"

definition forkTags :: "string \<rightharpoonup> string" where
  "forkTags = setTags [\<lparr>tag_name = ''v1.0.0'', tag_commit_sha = ''T''\<rparr>] Map.empty"

text \<open>
  The merge diamond above a tagged root: \<open>C3\<close> merges \<open>C1\<close> and \<open>C2\<close>, both children
  of \<open>C0\<close>, whose parent \<open>R\<close> carries the tag.
\<close>

definition diamondHistory :: "string \<Rightarrow> Commit list" where
  "diamondHistory hash =
     (if hash = ''C3'' then
        [\<lparr>commit_sha = ''C3'', commit_parents = [''C1'', ''C2'']\<rparr>,
         \<lparr>commit_sha = ''C1'', commit_parents = [''C0'']\<rparr>,
         \<lparr>commit_sha = ''C2'', commit_parents = [''C0'']\<rparr>,
         \<lparr>commit_sha = ''C0'', commit_parents = [''R'']\<rparr>,
         \<lparr>commit_sha = ''R'', commit_parents = []\<rparr>]
      else [])"

definition diamondService :: service where
  "diamondService =
     pagedService [\<lparr>tag_name = ''v1.0.0'', tag_commit_sha = ''R''\<rparr>] diamondHistory (\<lambda>rs. 0)"

text \<open>The tag index, the heap and the provider state the calls before the traversal leave.\<close>

definition diamondTags :: "string \<rightharpoonup> string" where
  "diamondTags = setTags [\<lparr>tag_name = ''v1.0.0'', tag_commit_sha = ''R''\<rparr>] Map.empty"

definition diamondHeap :: "LazyGitCommit list" where
  "diamondHeap = [\<lparr>sha = ''C3'', parentSha = [''C1'', ''C2''], visited = False\<rparr>]"

definition diamondState :: pstate where
  "diamondState = \<lparr>commits = setCommits (diamondHistory ''C3'') Map.empty, page = 1\<rparr>"

text \<open>
  A linear history of 101 commits \<open>c0, c1, \<dots>, c100\<close>, each the child of the next, with the
  tag on the root \<open>c100\<close>.  The listing that starts at a commit holds the commit and its
  ancestors, newest first.
\<close>

definition longSha :: "nat \<Rightarrow> string" where
  "longSha i = CHR ''c'' # showNat i"

definition longCommit :: "nat \<Rightarrow> Commit" where
  "longCommit i =
     \<lparr>commit_sha = longSha i, commit_parents = (if i < 100 then [longSha (i + 1)] else [])\<rparr>"

definition longHistory :: "string \<Rightarrow> Commit list" where
  "longHistory hash =
     (case find (\<lambda>i. longSha i = hash) [0..<101] of
        None \<Rightarrow> []
      | Some i \<Rightarrow> map longCommit [i..<101])"

definition longService :: service where
  "longService =
     pagedService [\<lparr>tag_name = ''v1.0.0'', tag_commit_sha = longSha 100\<rparr>] longHistory (\<lambda>rs. 0)"

text \<open>The tag index \<^verbatim>\<open>getTags\<close> builds for it.\<close>

definition longTags :: "string \<rightharpoonup> string" where
  "longTags = setTags [\<lparr>tag_name = ''v1.0.0'', tag_commit_sha = longSha 100\<rparr>] Map.empty"

text \<open>
  A linear history of 100 commits \<open>c0, c1, \<dots>, c99\<close> whose root \<open>c99\<close> is a merge of
  \<open>A\<close> and \<open>B\<close>, both children of \<open>T\<close>; \<open>A\<close> carries the tag \<open>a\<close> and \<open>B\<close> the tag
  \<open>b\<close>.  The listing that starts at a commit holds the commit and its ancestors.
\<close>

definition mergeCommit :: "nat \<Rightarrow> Commit" where
  "mergeCommit i =
     \<lparr>commit_sha = longSha i,
      commit_parents = (if i < 99 then [longSha (i + 1)] else [''A'', ''B''])\<rparr>"

definition sideCommit :: "string \<Rightarrow> Commit" where
  "sideCommit h = \<lparr>commit_sha = h, commit_parents = (if h = ''T'' then [] else [''T''])\<rparr>"

definition mergeHistory :: "string \<Rightarrow> Commit list" where
  "mergeHistory hash =
     (if hash = ''A'' then [sideCommit ''A'', sideCommit ''T'']
      else if hash = ''B'' then [sideCommit ''B'', sideCommit ''T'']
      else if hash = ''T'' then [sideCommit ''T'']
      else
        (case find (\<lambda>i. longSha i = hash) [0..<100] of
           None \<Rightarrow> []
         | Some i \<Rightarrow>
             map mergeCommit [i..<100] @ [sideCommit ''A'', sideCommit ''B'', sideCommit ''T'']))"

text \<open>
  The service for this history numbers its pages from 1 and serves page 0 as page 1, as the
  GitHub REST API does; of the requests of one \<^verbatim>\<open>Promise.all\<close> it answers the second
  first.
\<close>

definition secondFirstService :: service where
  "secondFirstService =
     \<lparr>listTags = (\<lambda>per_page p. Inr (pageOf per_page (p - 1)
        [\<lparr>tag_name = ''a'', tag_commit_sha = ''A''\<rparr>, \<lparr>tag_name = ''b'', tag_commit_sha = ''B''\<rparr>])),
      listCommits = (\<lambda>hash p per_page. Inr (pageOf per_page (p - 1) (mergeHistory hash))),
      arrival = (\<lambda>rs. 1)\<rparr>"

text \<open>
  The tag index, and the provider state \<^verbatim>\<open>getHistory\<close> leaves: page 0 of the listing from
  \<open>c0\<close> holds \<open>c0\<close> to \<open>c99\<close>, and the page counter is 1.
\<close>

definition mergeTags :: "string \<rightharpoonup> string" where
  "mergeTags =
     setTags [\<lparr>tag_name = ''a'', tag_commit_sha = ''A''\<rparr>, \<lparr>tag_name = ''b'', tag_commit_sha = ''B''\<rparr>]
       Map.empty"

definition mergeState :: pstate where
  "mergeState = \<lparr>commits = setCommits (map mergeCommit [0..<100]) Map.empty, page = 1\<rparr>"

text \<open>
  The heap when the traversal takes the merge \<open>c99\<close> from the queue (the nodes of \<open>c0\<close>
  to \<open>c98\<close> visited), and the heap after the expansion of \<open>c99\<close>, with the new nodes of
  \<open>A\<close> and \<open>B\<close> at the addresses 100 and 101.
\<close>

definition mergeNode :: "bool \<Rightarrow> nat \<Rightarrow> LazyGitCommit" where
  "mergeNode v i = (newLazyGitCommit (mergeCommit i))\<lparr>visited := v\<rparr>"

definition mergeHeap :: "LazyGitCommit list" where
  "mergeHeap = map (mergeNode True) [0..<99] @ [mergeNode False 99]"

definition mergeHeap' :: "LazyGitCommit list" where
  "mergeHeap' =
     map (mergeNode True) [0..<100] @
     [newLazyGitCommit (sideCommit ''A''), newLazyGitCommit (sideCommit ''B'')]"


section \<open>The loop, turn by turn\<close>

lemma findClosestTag_turn:
  "(case findClosestTag_step octokit tags heap ps todo depth of
      None \<Rightarrow> None
    | Some (Inl result) \<Rightarrow> Some result
    | Some (Inr (heap', ps', todo', depth')) \<Rightarrow> f octokit tags heap' ps' todo' depth') =
   (case todo of
      [] \<Rightarrow> Some (Inr \<lparr>tag = [], distance = - 1\<rparr>, heap)
    | None # rest \<Rightarrow> f octokit tags heap ps (rest @ [None]) (depth + 1)
    | Some head # rest \<Rightarrow>
        if visited (heap ! head) then f octokit tags heap ps rest depth
        else
          (case tags (sha (heap ! head)) of
             Some candidateTag \<Rightarrow> Some (Inr \<lparr>tag = candidateTag, distance = int depth\<rparr>, heap)
           | None \<Rightarrow>
               (case parents octokit head (heap[head := (heap ! head)\<lparr>visited := True\<rparr>]) ps of
                  None \<Rightarrow> None
                | Some (Inl e, heap', ps') \<Rightarrow> Some (Inl e, heap')
                | Some (Inr ns, heap', ps') \<Rightarrow> f octokit tags heap' ps' (rest @ map Some ns) depth)))"
  by (simp add: findClosestTag_step_def split: list.splits option.splits sum.splits prod.splits)

lemma findClosestTag_loop_unfold:
  "findClosestTag_loop octokit tags heap ps todo depth =
     (case todo of
        [] \<Rightarrow> Some (Inr \<lparr>tag = [], distance = - 1\<rparr>, heap)
      | None # rest \<Rightarrow> findClosestTag_loop octokit tags heap ps (rest @ [None]) (depth + 1)
      | Some head # rest \<Rightarrow>
          if visited (heap ! head) then findClosestTag_loop octokit tags heap ps rest depth
          else
            (case tags (sha (heap ! head)) of
               Some candidateTag \<Rightarrow> Some (Inr \<lparr>tag = candidateTag, distance = int depth\<rparr>, heap)
             | None \<Rightarrow>
                 (case parents octokit head (heap[head := (heap ! head)\<lparr>visited := True\<rparr>]) ps of
                    None \<Rightarrow> None
                  | Some (Inl e, heap', ps') \<Rightarrow> Some (Inl e, heap')
                  | Some (Inr ns, heap', ps') \<Rightarrow>
                      findClosestTag_loop octokit tags heap' ps' (rest @ map Some ns) depth)))"
  by (subst findClosestTag_loop.simps) (rule findClosestTag_turn)

lemma findClosestTag_loop_induct:
  assumes step: "\<And>loop octokit tags heap ps todo depth y.
      (\<And>octokit tags heap ps todo depth y.
          loop octokit tags heap ps todo depth = Some y \<Longrightarrow> P octokit tags heap ps todo depth y) \<Longrightarrow>
      (case todo of
         [] \<Rightarrow> Some (Inr \<lparr>tag = [], distance = - 1\<rparr>, heap)
       | None # rest \<Rightarrow> loop octokit tags heap ps (rest @ [None]) (depth + 1)
       | Some head # rest \<Rightarrow>
           if visited (heap ! head) then loop octokit tags heap ps rest depth
           else
             (case tags (sha (heap ! head)) of
                Some candidateTag \<Rightarrow> Some (Inr \<lparr>tag = candidateTag, distance = int depth\<rparr>, heap)
              | None \<Rightarrow>
                  (case parents octokit head (heap[head := (heap ! head)\<lparr>visited := True\<rparr>]) ps of
                     None \<Rightarrow> None
                   | Some (Inl e, heap', ps') \<Rightarrow> Some (Inl e, heap')
                   | Some (Inr ns, heap', ps') \<Rightarrow>
                       loop octokit tags heap' ps' (rest @ map Some ns) depth))) = Some y \<Longrightarrow>
      P octokit tags heap ps todo depth y"
    and run: "findClosestTag_loop octokit tags heap ps todo depth = Some y"
  shows "P octokit tags heap ps todo depth y"
proof (rule findClosestTag_loop.raw_induct [where P = P, OF _ run])
  fix loop octokit tags heap ps todo depth y
  assume IH: "\<And>octokit tags heap ps todo depth y.
      loop octokit tags heap ps todo depth = Some y \<Longrightarrow> P octokit tags heap ps todo depth y"
    and body: "(case findClosestTag_step octokit tags heap ps todo depth of
        None \<Rightarrow> None
      | Some (Inl result) \<Rightarrow> Some result
      | Some (Inr (heap', ps', todo', depth')) \<Rightarrow> loop octokit tags heap' ps' todo' depth') = Some y"
  from body have "(case todo of
         [] \<Rightarrow> Some (Inr \<lparr>tag = [], distance = - 1\<rparr>, heap)
       | None # rest \<Rightarrow> loop octokit tags heap ps (rest @ [None]) (depth + 1)
       | Some head # rest \<Rightarrow>
           if visited (heap ! head) then loop octokit tags heap ps rest depth
           else
             (case tags (sha (heap ! head)) of
                Some candidateTag \<Rightarrow> Some (Inr \<lparr>tag = candidateTag, distance = int depth\<rparr>, heap)
              | None \<Rightarrow>
                  (case parents octokit head (heap[head := (heap ! head)\<lparr>visited := True\<rparr>]) ps of
                     None \<Rightarrow> None
                   | Some (Inl e, heap', ps') \<Rightarrow> Some (Inl e, heap')
                   | Some (Inr ns, heap', ps') \<Rightarrow>
                       loop octokit tags heap' ps' (rest @ map Some ns) depth))) = Some y"
    by (simp only: findClosestTag_turn [where f = loop])
  with IH show "P octokit tags heap ps todo depth y" by (rule step)
qed

section \<open>The version string\<close>

lemma chain_tags:
  "getTags chainService =
     Some (Inr (setTags [\<lparr>tag_name = ''v1.0.0'', tag_commit_sha = ''C0''\<rparr>] Map.empty))"
  by (simp add: getTags_def getTags_loop.simps chainService_def pagedService_def pageOf_def
      pageSize_def)

lemma chain_history:
  "getHistory ''C2'' chainService [] =
     Some (Inr 0, [\<lparr>sha = ''C2'', parentSha = [''C1''], visited = False\<rparr>],
       \<lparr>commits = setCommits (chainHistory ''C2'') Map.empty, page = 1\<rparr>)"
  by (simp add: getHistory_def provider_def enter_def await1.simps respond_def leave_def
      chainService_def pagedService_def pageOf_def pageSize_def chainHistory_def setCommits_def
      newLazyGitCommit_def)

lemma chain_found:
  "map_option fst
     (findClosestTag chainService
        (setTags [\<lparr>tag_name = ''v1.0.0'', tag_commit_sha = ''C0''\<rparr>] Map.empty) 0
        [\<lparr>sha = ''C2'', parentSha = [''C1''], visited = False\<rparr>]
        \<lparr>commits = setCommits (chainHistory ''C2'') Map.empty, page = 1\<rparr>) =
   Some (Inr \<lparr>tag = ''v1.0.0'', distance = 2\<rparr>)"
  by (simp add: findClosestTag_def findClosestTag_loop_unfold parents_def awaitAll.simps
      enter_def setTags_def setCommits_def chainHistory_def newLazyGitCommit_def)

lemma noTag_tags: "getTags noTagService = Some (Inr (setTags [] Map.empty))"
  by (simp add: getTags_def getTags_loop.simps noTagService_def pagedService_def pageOf_def
      pageSize_def)

lemma noTag_history:
  "getHistory ''C2'' noTagService [] =
     Some (Inr 0, [\<lparr>sha = ''C2'', parentSha = [''C1''], visited = False\<rparr>], chainState)"
  by (simp add: getHistory_def provider_def enter_def await1.simps respond_def leave_def
      noTagService_def pagedService_def pageOf_def pageSize_def chainHistory_def setCommits_def
      newLazyGitCommit_def chainState_def)

lemma taggedStart_tags:
  "getTags taggedStartService =
     Some (Inr (setTags [\<lparr>tag_name = ''v1.0.0'', tag_commit_sha = ''C2''\<rparr>] Map.empty))"
  by (simp add: getTags_def getTags_loop.simps taggedStartService_def pagedService_def pageOf_def
      pageSize_def)

lemma taggedStart_history:
  "getHistory ''C2'' taggedStartService [] =
     Some (Inr 0, [\<lparr>sha = ''C2'', parentSha = [''C1''], visited = False\<rparr>], chainState)"
  by (simp add: getHistory_def provider_def enter_def await1.simps respond_def leave_def
      taggedStartService_def pagedService_def pageOf_def pageSize_def chainHistory_def setCommits_def
      newLazyGitCommit_def chainState_def)

lemma taggedStart_found:
  "map_option fst
     (findClosestTag taggedStartService
        (setTags [\<lparr>tag_name = ''v1.0.0'', tag_commit_sha = ''C2''\<rparr>] Map.empty) 0
        [\<lparr>sha = ''C2'', parentSha = [''C1''], visited = False\<rparr>] chainState) =
   Some (Inr \<lparr>tag = ''v1.0.0'', distance = 0\<rparr>)"
  by (simp add: findClosestTag_def findClosestTag_loop_unfold setTags_def)

lemma noTag_notFound:
  "map_option fst
     (notFoundResolver noTagService (setTags [] Map.empty) 0
        [\<lparr>sha = ''C2'', parentSha = [''C1''], visited = False\<rparr>] chainState) =
   Some (Inr \<lparr>tag = [], distance = - 1\<rparr>)"
  by (simp add: notFoundResolver_def)

text \<open>
  C7: \<^verbatim>\<open>run\<close> is \<^verbatim>\<open>runWith\<close> at the resolver \<^verbatim>\<open>findClosestTag\<close>.  For every resolver:
  when the tags and the history are fetched and the resolver returns the tag \<open>t\<close> at
  distance \<open>d\<close>, the run computes the version as the commit identifier for a negative
  \<open>d\<close>, as \<open>t\<close> for \<open>d = 0\<close> and as \<open>t-d-identifier\<close> for a positive \<open>d\<close>; it sets the
  output \<open>version\<close> to it and appends \<open>VERSION=\<close> followed by it to the environment file.
\<close>

theorem run_version:
  assumes "getTags octokit = Some (Inr tags)"
    and "getHistory GITHUB_SHA octokit heap = Some (Inr history, heap', ps)"
    and "map_option fst (resolve octokit tags history heap' ps) =
           Some (Inr \<lparr>tag = t, distance = d\<rparr>)"
  shows "\<exists>version.
           runWith resolve octokit GITHUB_SHA heap w =
             Some (w\<lparr>outputs := outputs w @ [(''version'', version)],
                     envFile := envFile w @ ''VERSION='' @ version\<rparr>) \<and>
           version = (if d < 0 then GITHUB_SHA
                      else if d = 0 then t
                      else t @ ''-'' @ numberToString d @ ''-'' @ GITHUB_SHA)"
  using assms
  by (auto simp add: runWith_def versionOf_def setOutput_def appendFileSync_def Let_def)

text \<open>
  The three cases: \<^verbatim>\<open>run\<close> on the chain tagged two commits back and on the chain tagged
  at the start, and the run whose resolver finds no tag.
\<close>

theorem run_version_witness:
  "run chainService ''C2'' [] world0 =
     Some \<lparr>outputs = [(''version'', ''v1.0.0-2-C2'')], envFile = ''VERSION=v1.0.0-2-C2'',
       failure = None\<rparr> \<and>
   run taggedStartService ''C2'' [] world0 =
     Some \<lparr>outputs = [(''version'', ''v1.0.0'')], envFile = ''VERSION=v1.0.0'',
       failure = None\<rparr> \<and>
   runWith notFoundResolver noTagService ''C2'' [] world0 =
     Some \<lparr>outputs = [(''version'', ''C2'')], envFile = ''VERSION=C2'', failure = None\<rparr>"
  using run_version [where resolve = findClosestTag and w = world0,
      OF chain_tags chain_history chain_found]
    run_version [where resolve = findClosestTag and w = world0,
      OF taggedStart_tags taggedStart_history taggedStart_found]
    run_version [where resolve = notFoundResolver and w = world0,
      OF noTag_tags noTag_history noTag_notFound]
  by (simp add: run_def world0_def numberToString_def showNat.simps)

section \<open>Thrown values\<close>

lemma empty_tags: "getTags emptyService = Some (Inr (setTags [] Map.empty))"
  by (simp add: getTags_def getTags_loop.simps emptyService_def pagedService_def pageOf_def
      pageSize_def)

lemma empty_history:
  "map_option fst (getHistory ''C2'' emptyService []) =
     Some (Inl (Error (missMessage ''C2'' 1)))"
  by (simp add: getHistory_def provider_def enter_def await1.simps respond_def leave_def
      emptyService_def pagedService_def pageOf_def pageSize_def setCommits_def)

text \<open>
  What is thrown by the first tag listing, or by the commit listing inside the first
  resolution of the commit, reaches the \<^verbatim>\<open>catch\<close> of \<^verbatim>\<open>run\<close> unchanged, and nothing is
  output; an \<^verbatim>\<open>Error\<close> is reported with its message, as the cache-miss error is.
\<close>

lemma catchError_Error: "catchError (Error message) w = w\<lparr>failure := Some message\<rparr>"
  by (simp add: catchError_def setFailed_def)

lemma catchError_Other: "catchError (Other v) w = w"
  by (simp add: catchError_def)

lemma listTags_thrown:
  assumes "listTags octokit pageSize 0 = Inl e"
  shows "run octokit GITHUB_SHA heap w = Some (catchError e w)"
  using assms by (simp add: run_def runWith_def getTags_def getTags_loop.simps)

lemma listCommits_thrown:
  assumes "getTags octokit = Some (Inr tags)"
    and "listCommits octokit GITHUB_SHA 0 pageSize = Inl e"
  shows "run octokit GITHUB_SHA heap w = Some (catchError e w)"
  using assms
  by (simp add: run_def runWith_def getHistory_def provider_def enter_def await1.simps
      respond_def)

lemma cache_miss_reported:
  "run emptyService ''C2'' [] world0 =
     Some \<lparr>outputs = [], envFile = [],
       failure = Some ''commit C2 was undefined, must not happen, all commits should be loaded. {\"page\":1,\"commits\":{}}''\<rparr>"
  using empty_tags empty_history
  by (auto simp add: run_def runWith_def catchError_def setFailed_def world0_def missMessage_def
      showNat.simps split: option.splits sum.splits)

lemma commitsThrowing_tags: "getTags commitsThrowingService = Some (Inr (setTags [] Map.empty))"
  by (simp add: getTags_def getTags_loop.simps commitsThrowingService_def pageSize_def)

text \<open>
  C6 fails on the code: when the tag listing, or the commit listing, throws a value that is
  not an \<^verbatim>\<open>Error\<close>, \<^verbatim>\<open>run\<close> ends with the world as it was: nothing is output, and no
  failure status is reported either, because the \<^verbatim>\<open>catch\<close> calls \<^verbatim>\<open>setFailed\<close> only for an
  instance of \<^verbatim>\<open>Error\<close> (line 33), against the comment above it, "Fail the workflow run
  if an error occurs".
\<close>

theorem non_error_thrown_unreported:
  "listTags throwingService pageSize 0 = Inl (Other ''boom'') \<and>
   run throwingService ''C2'' [] world0 = Some world0 \<and>
   listCommits commitsThrowingService ''C2'' 0 pageSize = Inl (Other ''boom'') \<and>
   run commitsThrowingService ''C2'' [] world0 = Some world0 \<and>
   failure world0 = None"
proof -
  have 1: "listTags throwingService pageSize 0 = Inl (Other ''boom'')"
    by (simp add: throwingService_def)
  have 2: "listCommits commitsThrowingService ''C2'' 0 pageSize = Inl (Other ''boom'')"
    by (simp add: commitsThrowingService_def)
  from listTags_thrown [OF 1, of "''C2''" "[]" world0]
    listCommits_thrown [OF commitsThrowing_tags 2, of "[]" world0] 1 2
  show ?thesis by (simp add: catchError_Other world0_def)
qed

section \<open>The traversal\<close>

lemma pendingFrom_cached:
  "list_all (cached (commits ps)) hs \<Longrightarrow> pendingFrom i (map (enter ps) hs) = []"
  by (induction hs arbitrary: i) (auto simp add: enter_def cached_def split: option.splits)

lemma fulfilled_cached:
  "list_all (cached (commits ps)) hs \<Longrightarrow>
   fulfilled (map (enter ps) hs) = map (\<lambda>h. the (commits ps h)) hs"
  by (induction hs) (auto simp add: enter_def cached_def split: option.splits)

lemma awaitAll_cached:
  assumes "list_all (cached (commits ps)) hs"
  shows "awaitAll octokit (map (enter ps) hs) ps =
           Some (Inr (map (\<lambda>h. the (commits ps h)) hs), ps)"
  by (subst awaitAll.simps) (simp add: pendingFrom_cached [OF assms] fulfilled_cached [OF assms])

lemma parents_cached:
  assumes "list_all (cached (commits ps)) (parentSha (heap ! this))"
  shows "parents octokit this heap ps =
           Some (Inr [length heap..<length heap + length (parentSha (heap ! this))],
                 heap @ map (\<lambda>h. newLazyGitCommit (the (commits ps h))) (parentSha (heap ! this)),
                 ps)"
  by (simp add: parents_def awaitAll_cached [OF assms])

lemma expand_Nil: "expand cache [] = []"
  by (simp add: expand_def)

lemma expand_Cons: "expand cache (h # hs) = parentsIn cache h @ expand cache hs"
  by (simp add: expand_def)

lemma expand_append: "expand cache (hs @ hs') = expand cache hs @ expand cache hs'"
  by (simp add: expand_def)

lemma loaded_Cons:
  "loaded cache (h # hs) \<longleftrightarrow> list_all (cached cache) (parentsIn cache h) \<and> loaded cache hs"
  by (simp add: loaded_def expand_Cons)

lemma loaded_append:
  "loaded cache (hs @ hs') \<longleftrightarrow> loaded cache hs \<and> loaded cache hs'"
  by (simp add: loaded_def expand_append)

lemma newNode_unvisited:
  assumes "cached cache h"
  shows "sha (newLazyGitCommit (the (cache h))) = h"
    and "\<not> visited (newLazyGitCommit (the (cache h)))"
    and "parentSha (newLazyGitCommit (the (cache h))) = parentsIn cache h"
  using assms by (auto simp add: cached_def newLazyGitCommit_def parentsIn_def split: option.splits)

lemma drain_step:
  assumes r: "unvisitedNode heap (commits ps) r"
    and untagged: "tags (sha (heap ! r)) = None"
    and ld: "list_all (cached (commits ps)) (parentsIn (commits ps) (sha (heap ! r)))"
  shows "findClosestTag_loop octokit tags heap ps (Some r # rest) depth =
         findClosestTag_loop octokit tags
           (heap[r := (heap ! r)\<lparr>visited := True\<rparr>] @
              map (\<lambda>h. newLazyGitCommit (the (commits ps h))) (parentsIn (commits ps) (sha (heap ! r))))
           ps
           (rest @ map Some [length heap..<length heap + length (parentsIn (commits ps) (sha (heap ! r)))])
           depth"
proof -
  let ?heap1 = "heap[r := (heap ! r)\<lparr>visited := True\<rparr>]"
  from r have lt: "r < length heap" and nv: "\<not> visited (heap ! r)"
    and par: "parentSha (heap ! r) = parentsIn (commits ps) (sha (heap ! r))"
    by (simp_all add: unvisitedNode_def)
  from lt par have par1: "parentSha (?heap1 ! r) = parentsIn (commits ps) (sha (heap ! r))"
    by simp
  from ld par1 have "list_all (cached (commits ps)) (parentSha (?heap1 ! r))"
    by simp
  from parents_cached [OF this, of octokit] par1
  have "parents octokit r ?heap1 ps =
          Some (Inr [length heap..<length heap + length (parentsIn (commits ps) (sha (heap ! r)))],
                ?heap1 @ map (\<lambda>h. newLazyGitCommit (the (commits ps h))) (parentsIn (commits ps) (sha (heap ! r))),
                ps)"
    by simp
  with nv untagged show ?thesis
    by (subst findClosestTag_loop_unfold) simp
qed

lemma drain:
  assumes "distinct rs" and "set rs \<inter> X = {}"
    and "\<forall>r\<in>set rs \<union> X. unvisitedNode heap (commits ps) r"
    and "\<forall>r\<in>set rs. tags (sha (heap ! r)) = None"
    and "loaded (commits ps) (map (\<lambda>r. sha (heap ! r)) rs)"
  shows "\<exists>heap' q.
           findClosestTag_loop octokit tags heap ps (map Some rs @ tail) depth =
             findClosestTag_loop octokit tags heap' ps (tail @ map Some q) depth \<and>
           distinct q \<and> set q \<inter> X = {} \<and>
           (\<forall>r\<in>set q \<union> X. unvisitedNode heap' (commits ps) r) \<and>
           (\<forall>r\<in>X. heap' ! r = heap ! r) \<and>
           map (\<lambda>r. sha (heap' ! r)) q = expand (commits ps) (map (\<lambda>r. sha (heap ! r)) rs)"
  using assms
proof (induction rs arbitrary: heap tail X)
  case Nil
  show ?case
    by (rule exI [of _ heap], rule exI [of _ "[]"]) (use Nil in \<open>simp add: expand_Nil\<close>)
next
  case (Cons r rs)
  let ?cache = "commits ps"
  let ?par = "parentsIn ?cache (sha (heap ! r))"
  let ?ns = "[length heap..<length heap + length ?par]"
  let ?heap2 = "heap[r := (heap ! r)\<lparr>visited := True\<rparr>] @
                  map (\<lambda>h. newLazyGitCommit (the (?cache h))) ?par"
  from Cons.prems have r: "unvisitedNode heap ?cache r"
    and untagged: "tags (sha (heap ! r)) = None"
    and ldr: "list_all (cached ?cache) ?par"
    and ldrs: "loaded ?cache (map (\<lambda>r. sha (heap ! r)) rs)"
    by (simp_all add: loaded_Cons)
  have old: "?heap2 ! r' = heap ! r' \<and> r' < length heap \<and> r' \<noteq> r" if "r' \<in> set rs \<union> X" for r'
  proof -
    from that Cons.prems have "r' \<noteq> r" by auto
    moreover from that Cons.prems have "r' < length heap" by (auto simp add: unvisitedNode_def)
    ultimately show ?thesis by (simp add: nth_append)
  qed
  have new: "?heap2 ! r' = newLazyGitCommit (the (?cache (?par ! (r' - length heap)))) \<and>
             length heap \<le> r' \<and> r' - length heap < length ?par" if "r' \<in> set ?ns" for r'
    using that by (auto simp add: nth_append)
  have step: "findClosestTag_loop octokit tags heap ps (map Some (r # rs) @ tail) depth =
              findClosestTag_loop octokit tags ?heap2 ps (map Some rs @ (tail @ map Some ?ns)) depth"
    using r untagged ldr
      drain_step [where tags = tags and heap = heap and ps = ps and r = r and octokit = octokit
        and rest = "map Some rs @ tail" and depth = depth]
    by simp
  have 1: "distinct rs" using Cons.prems by simp
  have 2: "set rs \<inter> (X \<union> set ?ns) = {}"
  proof -
    have "set rs \<inter> set ?ns = {}" using old by fastforce
    with Cons.prems show ?thesis by auto
  qed
  have 3: "\<forall>r'\<in>set rs \<union> (X \<union> set ?ns). unvisitedNode ?heap2 ?cache r'"
  proof
    fix r' assume "r' \<in> set rs \<union> (X \<union> set ?ns)"
    then consider "r' \<in> set rs \<union> X" | "r' \<in> set ?ns" by blast
    then show "unvisitedNode ?heap2 ?cache r'"
    proof cases
      case 1
      with Cons.prems have "unvisitedNode heap ?cache r'" by auto
      with old [OF 1] show ?thesis by (simp add: unvisitedNode_def)
    next
      case 2
      from new [OF 2] ldr have c: "cached ?cache (?par ! (r' - length heap))"
        by (simp add: list_all_length)
      from newNode_unvisited [OF c] c new [OF 2] 2 show ?thesis
        by (simp add: unvisitedNode_def)
    qed
  qed
  have 4: "\<forall>r'\<in>set rs. tags (sha (?heap2 ! r')) = None"
  proof
    fix r' assume r': "r' \<in> set rs"
    then have "r' \<in> set rs \<union> X" by simp
    from old [OF this] r' Cons.prems(4) show "tags (sha (?heap2 ! r')) = None" by simp
  qed
  have same: "map (\<lambda>r. sha (?heap2 ! r)) rs = map (\<lambda>r. sha (heap ! r)) rs"
  proof (rule map_cong [OF refl])
    fix r' assume "r' \<in> set rs"
    then have "r' \<in> set rs \<union> X" by simp
    from old [OF this] show "sha (?heap2 ! r') = sha (heap ! r')" by simp
  qed
  have 5: "loaded ?cache (map (\<lambda>r. sha (?heap2 ! r)) rs)"
    unfolding same by (rule ldrs)
  from Cons.IH [OF 1 2 3 4 5, of "tail @ map Some ?ns"]
  obtain heap' q where
    run: "findClosestTag_loop octokit tags ?heap2 ps (map Some rs @ (tail @ map Some ?ns)) depth =
          findClosestTag_loop octokit tags heap' ps ((tail @ map Some ?ns) @ map Some q) depth"
    and dq: "distinct q" and disj: "set q \<inter> (X \<union> set ?ns) = {}"
    and unv: "\<forall>r\<in>set q \<union> (X \<union> set ?ns). unvisitedNode heap' ?cache r"
    and keep: "\<forall>r\<in>X \<union> set ?ns. heap' ! r = ?heap2 ! r"
    and shas: "map (\<lambda>r. sha (heap' ! r)) q = expand ?cache (map (\<lambda>r. sha (?heap2 ! r)) rs)"
    by blast
  have nsX: "set ?ns \<inter> X = {}" using old by fastforce
  have shans: "map (\<lambda>r. sha (heap' ! r)) ?ns = ?par"
  proof (rule nth_equalityI)
    show "length (map (\<lambda>r. sha (heap' ! r)) ?ns) = length ?par" by simp
  next
    fix i assume "i < length (map (\<lambda>r. sha (heap' ! r)) ?ns)"
    then have i: "i < length ?par" by simp
    then have mem: "length heap + i \<in> set ?ns" by simp
    from i ldr have "cached ?cache (?par ! i)" by (simp add: list_all_length)
    from newNode_unvisited(1) [OF this] new [OF mem] keep mem
    have "sha (heap' ! (length heap + i)) = ?par ! i" by simp
    with i show "map (\<lambda>r. sha (heap' ! r)) ?ns ! i = ?par ! i" by simp
  qed
  show ?case
  proof (rule exI [of _ heap'], rule exI [of _ "?ns @ q"], intro conjI)
    show "findClosestTag_loop octokit tags heap ps (map Some (r # rs) @ tail) depth =
          findClosestTag_loop octokit tags heap' ps (tail @ map Some (?ns @ q)) depth"
      using step run by simp
    show "distinct (?ns @ q)" using dq disj by auto
    show "set (?ns @ q) \<inter> X = {}" using disj nsX by auto
    show "\<forall>r\<in>set (?ns @ q) \<union> X. unvisitedNode heap' ?cache r" using unv by auto
    show "\<forall>r\<in>X. heap' ! r = heap ! r"
    proof
      fix x assume "x \<in> X"
      with keep old [of x] show "heap' ! x = heap ! x" by simp
    qed
    show "map (\<lambda>r. sha (heap' ! r)) (?ns @ q) =
          expand ?cache (map (\<lambda>r. sha (heap ! r)) (r # rs))"
      using shans shas by (simp add: expand_Cons same)
  qed
qed

lemma marker_step:
  "findClosestTag_loop octokit tags heap ps (None # rest) depth =
   findClosestTag_loop octokit tags heap ps (rest @ [None]) (depth + 1)"
  by (subst findClosestTag_loop_unfold) simp

lemma hit_step:
  assumes "unvisitedNode heap cache r" and "tags (sha (heap ! r)) = Some t"
  shows "findClosestTag_loop octokit tags heap ps (Some r # rest) depth =
         Some (Inr \<lparr>tag = t, distance = int depth\<rparr>, heap)"
  using assms by (subst findClosestTag_loop_unfold) (simp add: unvisitedNode_def)

lemma bfs_levels:
  assumes "distinct rs" and "\<forall>r\<in>set rs. unvisitedNode heap (commits ps) r"
    and "(expand (commits ps) ^^ d) (map (\<lambda>r. sha (heap ! r)) rs) = L1 @ h # L2"
    and "\<forall>x\<in>set L1. tags x = None" and "tags h = Some t" and "loaded (commits ps) L1"
    and "\<forall>n<d. (\<forall>x\<in>set ((expand (commits ps) ^^ n) (map (\<lambda>r. sha (heap ! r)) rs)). tags x = None) \<and>
               loaded (commits ps) ((expand (commits ps) ^^ n) (map (\<lambda>r. sha (heap ! r)) rs))"
  shows "\<exists>heap'. findClosestTag_loop octokit tags heap ps (map Some rs @ [None]) depth =
                  Some (Inr \<lparr>tag = t, distance = int (depth + d)\<rparr>, heap')"
  using assms
proof (induction d arbitrary: heap rs depth)
  case 0
  let ?cache = "commits ps"
  from "0.prems"(3) have "map (\<lambda>r. sha (heap ! r)) rs = L1 @ h # L2" by simp
  then obtain rs1 r rs2 where rs: "rs = rs1 @ r # rs2"
    and L1: "L1 = map (\<lambda>r. sha (heap ! r)) rs1" and h: "h = sha (heap ! r)"
    by (auto simp add: map_eq_append_conv map_eq_Cons_conv)
  have "\<exists>heap' q.
           findClosestTag_loop octokit tags heap ps (map Some rs1 @ (Some r # map Some rs2 @ [None])) depth =
             findClosestTag_loop octokit tags heap' ps ((Some r # map Some rs2 @ [None]) @ map Some q) depth \<and>
           distinct q \<and> set q \<inter> insert r (set rs2) = {} \<and>
           (\<forall>r\<in>set q \<union> insert r (set rs2). unvisitedNode heap' (commits ps) r) \<and>
           (\<forall>r\<in>insert r (set rs2). heap' ! r = heap ! r) \<and>
           map (\<lambda>r. sha (heap' ! r)) q = expand (commits ps) (map (\<lambda>r. sha (heap ! r)) rs1)"
  proof (rule drain)
    show "distinct rs1" using "0.prems"(1) rs by simp
    show "set rs1 \<inter> insert r (set rs2) = {}" using "0.prems"(1) rs by auto
    show "\<forall>r\<in>set rs1 \<union> insert r (set rs2). unvisitedNode heap (commits ps) r"
      using "0.prems"(2) rs by auto
    show "\<forall>r\<in>set rs1. tags (sha (heap ! r)) = None" using "0.prems"(4) L1 by simp
    show "loaded (commits ps) (map (\<lambda>r. sha (heap ! r)) rs1)" using "0.prems"(6) L1 by simp
  qed
  then obtain heap' q where
    run: "findClosestTag_loop octokit tags heap ps (map Some rs1 @ (Some r # map Some rs2 @ [None])) depth =
          findClosestTag_loop octokit tags heap' ps ((Some r # map Some rs2 @ [None]) @ map Some q) depth"
    and unv: "unvisitedNode heap' (commits ps) r" and keep: "heap' ! r = heap ! r"
    by auto
  from keep h "0.prems"(5) have "tags (sha (heap' ! r)) = Some t" by simp
  with unv run rs
    hit_step [where tags = tags and heap = heap' and r = r and cache = "commits ps" and t = t
      and octokit = octokit and ps = ps and depth = depth
      and rest = "(map Some rs2 @ [None]) @ map Some q"]
  show ?case by simp
next
  case (Suc d)
  let ?cache = "commits ps"
  let ?L = "map (\<lambda>r. sha (heap ! r)) rs"
  from Suc.prems(7) have "(\<forall>x\<in>set ((expand ?cache ^^ 0) ?L). tags x = None) \<and>
      loaded ?cache ((expand ?cache ^^ 0) ?L)"
    by blast
  then have untagged: "\<forall>r\<in>set rs. tags (sha (heap ! r)) = None" and ld: "loaded ?cache ?L"
    by simp_all
  have "\<exists>heap' q.
           findClosestTag_loop octokit tags heap ps (map Some rs @ [None]) depth =
             findClosestTag_loop octokit tags heap' ps ([None] @ map Some q) depth \<and>
           distinct q \<and> set q \<inter> {} = {} \<and>
           (\<forall>r\<in>set q \<union> {}. unvisitedNode heap' (commits ps) r) \<and>
           (\<forall>r\<in>{}. heap' ! r = heap ! r) \<and>
           map (\<lambda>r. sha (heap' ! r)) q = expand (commits ps) ?L"
  proof (rule drain)
    show "distinct rs" by (rule Suc.prems(1))
    show "set rs \<inter> {} = {}" by simp
    show "\<forall>r\<in>set rs \<union> {}. unvisitedNode heap (commits ps) r" using Suc.prems(2) by simp
    show "\<forall>r\<in>set rs. tags (sha (heap ! r)) = None" by (rule untagged)
    show "loaded (commits ps) ?L" by (rule ld)
  qed
  then obtain heap' q where
    run: "findClosestTag_loop octokit tags heap ps (map Some rs @ [None]) depth =
          findClosestTag_loop octokit tags heap' ps (None # map Some q) depth"
    and dq: "distinct q" and unv: "\<forall>r\<in>set q. unvisitedNode heap' ?cache r"
    and shas: "map (\<lambda>r. sha (heap' ! r)) q = expand ?cache ?L"
    by auto
  have swap: "(expand ?cache ^^ n) (expand ?cache ?L) = (expand ?cache ^^ Suc n) ?L" for n
    by (simp add: funpow_swap1)
  have 3: "(expand ?cache ^^ d) (map (\<lambda>r. sha (heap' ! r)) q) = L1 @ h # L2"
    unfolding shas swap by (rule Suc.prems(3))
  have 7: "\<forall>n<d. (\<forall>x\<in>set ((expand ?cache ^^ n) (map (\<lambda>r. sha (heap' ! r)) q)). tags x = None) \<and>
               loaded ?cache ((expand ?cache ^^ n) (map (\<lambda>r. sha (heap' ! r)) q))"
    unfolding shas swap using Suc.prems(7) by (meson Suc_less_eq)
  from Suc.IH [OF dq unv 3 Suc.prems(4) Suc.prems(5) Suc.prems(6) 7, of "depth + 1"]
  obtain heap'' where
    "findClosestTag_loop octokit tags heap' ps (map Some q @ [None]) (depth + 1) =
       Some (Inr \<lparr>tag = t, distance = int (depth + 1 + d)\<rparr>, heap'')"
    by blast
  with run marker_step [of octokit tags heap' ps "map Some q" depth] show ?case
    by (auto simp add: add.commute add.left_commute)
qed

lemma findClosestTag_first:
  assumes "unvisitedNode heap (commits ps) history"
    and "ancestorsAt (commits ps) (sha (heap ! history)) d = L1 @ h # L2"
    and "\<forall>x\<in>set L1. tags x = None" and "tags h = Some t" and "loaded (commits ps) L1"
    and "\<forall>n<d. (\<forall>x\<in>set (ancestorsAt (commits ps) (sha (heap ! history)) n). tags x = None) \<and>
               loaded (commits ps) (ancestorsAt (commits ps) (sha (heap ! history)) n)"
  shows "\<exists>heap'. findClosestTag octokit tags history heap ps =
                  Some (Inr \<lparr>tag = t, distance = int d\<rparr>, heap')"
proof -
  have "\<exists>heap'. findClosestTag_loop octokit tags heap ps (map Some [history] @ [None]) 0 =
                  Some (Inr \<lparr>tag = t, distance = int (0 + d)\<rparr>, heap')"
  proof (rule bfs_levels [where ?L1.0 = L1 and h = h and ?L2.0 = L2])
    show "distinct [history]" by simp
    show "\<forall>r\<in>set [history]. unvisitedNode heap (commits ps) r" using assms(1) by simp
    show "(expand (commits ps) ^^ d) (map (\<lambda>r. sha (heap ! r)) [history]) = L1 @ h # L2"
      using assms(2) by (simp add: ancestorsAt_def)
    show "\<forall>x\<in>set L1. tags x = None" by (rule assms(3))
    show "tags h = Some t" by (rule assms(4))
    show "loaded (commits ps) L1" by (rule assms(5))
    show "\<forall>n<d. (\<forall>x\<in>set ((expand (commits ps) ^^ n) (map (\<lambda>r. sha (heap ! r)) [history])). tags x = None) \<and>
               loaded (commits ps) ((expand (commits ps) ^^ n) (map (\<lambda>r. sha (heap ! r)) [history]))"
      using assms(6) by (simp add: ancestorsAt_def)
  qed
  then show ?thesis by (simp add: findClosestTag_def)
qed

lemma loop_never_returns:
  assumes U: "\<forall>h\<in>U. tags h = None \<and>
                (\<forall>p\<in>set (parentsIn (commits ps) h). cached (commits ps) p \<and> p \<in> U)"
    and "None \<in> set todo"
    and "\<forall>r. Some r \<in> set todo \<longrightarrow>
           r < length heap \<and> sha (heap ! r) \<in> U \<and>
           parentSha (heap ! r) = parentsIn (commits ps) (sha (heap ! r))"
  shows "findClosestTag_loop octokit tags heap ps todo depth = None"
proof -
  let ?inv = "\<lambda>heap todo. None \<in> set todo \<and>
        (\<forall>r. Some r \<in> set todo \<longrightarrow>
           r < length heap \<and> sha (heap ! r) \<in> U \<and>
           parentSha (heap ! r) = parentsIn (commits ps) (sha (heap ! r)))"
  let ?P = "\<lambda>octokit' tags' heap ps' todo (depth::nat) (y::(thrown + found) \<times> LazyGitCommit list).
        octokit' = octokit \<longrightarrow> tags' = tags \<longrightarrow> ps' = ps \<longrightarrow> ?inv heap todo \<longrightarrow> False"
  have "?P octokit' tags' heap ps' todo depth y"
    if "findClosestTag_loop octokit' tags' heap ps' todo depth = Some y"
    for octokit' tags' heap ps' todo depth y
  proof (rule findClosestTag_loop_induct [where P = ?P, OF _ that], intro impI)
    fix loop octokit' tags' heap ps' todo depth y
    assume IH: "\<And>octokit' tags' heap ps' todo depth y.
                  loop octokit' tags' heap ps' todo depth = Some y \<Longrightarrow>
                  ?P octokit' tags' heap ps' todo depth y"
      and body: "(case todo of
          [] \<Rightarrow> Some (Inr \<lparr>tag = [], distance = - 1\<rparr>, heap)
        | None # rest \<Rightarrow> loop octokit' tags' heap ps' (rest @ [None]) (depth + 1)
        | Some head # rest \<Rightarrow>
            if visited (heap ! head) then loop octokit' tags' heap ps' rest depth
            else
              (case tags' (sha (heap ! head)) of
                 Some candidateTag \<Rightarrow> Some (Inr \<lparr>tag = candidateTag, distance = int depth\<rparr>, heap)
               | None \<Rightarrow>
                   (case parents octokit' head (heap[head := (heap ! head)\<lparr>visited := True\<rparr>]) ps' of
                      None \<Rightarrow> None
                    | Some (Inl e, heap', ps') \<Rightarrow> Some (Inl e, heap')
                    | Some (Inr ns, heap', ps') \<Rightarrow>
                        loop octokit' tags' heap' ps' (rest @ map Some ns) depth))) = Some y"
      and eqs: "octokit' = octokit" "tags' = tags" "ps' = ps"
      and inv: "?inv heap todo"
    show False
    proof (cases todo)
      case Nil
      with inv show ?thesis by simp
    next
      case (Cons x rest)
      show ?thesis
      proof (cases x)
        case None
        with Cons body have "loop octokit' tags' heap ps' (rest @ [None]) (depth + 1) = Some y"
          by simp
        moreover have "None \<in> set (rest @ [None])" by simp
        moreover have "\<forall>r. Some r \<in> set (rest @ [None]) \<longrightarrow>
           r < length heap \<and> sha (heap ! r) \<in> U \<and>
           parentSha (heap ! r) = parentsIn (commits ps) (sha (heap ! r))"
          using inv Cons by simp
        ultimately show ?thesis using IH eqs by blast
      next
        case (Some r)
        from inv Cons Some have m: "None \<in> set rest" by simp
        from inv Cons Some have r: "r < length heap" "sha (heap ! r) \<in> U"
          "parentSha (heap ! r) = parentsIn (commits ps) (sha (heap ! r))"
          and rest: "\<forall>r. Some r \<in> set rest \<longrightarrow>
           r < length heap \<and> sha (heap ! r) \<in> U \<and>
           parentSha (heap ! r) = parentsIn (commits ps) (sha (heap ! r))"
          by simp_all
        show ?thesis
        proof (cases "visited (heap ! r)")
          case True
          with Cons Some body have "loop octokit' tags' heap ps' rest depth = Some y"
            by simp
          with m rest show ?thesis using IH eqs by blast
        next
          case False
          let ?par = "parentsIn (commits ps) (sha (heap ! r))"
          let ?heap1 = "heap[r := (heap ! r)\<lparr>visited := True\<rparr>]"
          let ?heap2 = "?heap1 @ map (\<lambda>h. newLazyGitCommit (the (commits ps h))) ?par"
          let ?ns = "[length heap..<length heap + length ?par]"
          from U r have untagged: "tags (sha (heap ! r)) = None"
            and par: "\<forall>p\<in>set ?par. cached (commits ps) p \<and> p \<in> U"
            by auto
          from r have par1: "parentSha (?heap1 ! r) = ?par" by simp
          from par have "list_all (cached (commits ps)) (parentSha (?heap1 ! r))"
            unfolding par1 by (simp add: list_all_iff)
          from parents_cached [OF this, of octokit] par1
          have "parents octokit r ?heap1 ps = Some (Inr ?ns, ?heap2, ps)" by simp
          with Cons Some False untagged eqs body
          have run: "loop octokit' tags' ?heap2 ps' (rest @ map Some ?ns) depth = Some y"
            by simp
          have "None \<in> set (rest @ map Some ?ns)" using m by simp
          moreover have "\<forall>r'. Some r' \<in> set (rest @ map Some ?ns) \<longrightarrow>
             r' < length ?heap2 \<and> sha (?heap2 ! r') \<in> U \<and>
             parentSha (?heap2 ! r') = parentsIn (commits ps) (sha (?heap2 ! r'))"
          proof (intro allI impI)
            fix r' assume "Some r' \<in> set (rest @ map Some ?ns)"
            then consider "Some r' \<in> set rest" | "r' \<in> set ?ns" by auto
            then show "r' < length ?heap2 \<and> sha (?heap2 ! r') \<in> U \<and>
               parentSha (?heap2 ! r') = parentsIn (commits ps) (sha (?heap2 ! r'))"
            proof cases
              case 1
              with rest have lt: "r' < length heap" and u: "sha (heap ! r') \<in> U"
                and p: "parentSha (heap ! r') = parentsIn (commits ps) (sha (heap ! r'))"
                by auto
              have "sha (?heap2 ! r') = sha (heap ! r') \<and> parentSha (?heap2 ! r') = parentSha (heap ! r')"
                using lt by (cases "r' = r") (simp_all add: nth_append)
              with lt u p show ?thesis by simp
            next
              case 2
              then have i: "r' - length heap < length ?par" and ge: "length heap \<le> r'" by auto
              then have node: "?heap2 ! r' = newLazyGitCommit (the (commits ps (?par ! (r' - length heap))))"
                by (simp add: nth_append)
              from i par have c: "cached (commits ps) (?par ! (r' - length heap))"
                and u: "?par ! (r' - length heap) \<in> U"
                by simp_all
              from newNode_unvisited [OF c] node u 2 show ?thesis by simp
            qed
          qed
          ultimately show ?thesis using run IH eqs by blast
        qed
      qed
    qed
  qed
  note never = this
  show ?thesis
  proof (cases "findClosestTag_loop octokit tags heap ps todo depth")
    case None
    then show ?thesis .
  next
    case (Some y)
    from never [OF Some] assms(2,3) show ?thesis by blast
  qed
qed

text \<open>The levels list exactly the ends of the paths of each length.\<close>

lemma ancestorsAt_Suc:
  "ancestorsAt cache h (Suc n) = expand cache (ancestorsAt cache h n)"
  by (simp add: ancestorsAt_def)

lemma ancestorsAt_pathTo:
  "x \<in> set (ancestorsAt cache h n) \<longleftrightarrow> pathTo cache h n x"
proof (induction n arbitrary: x)
  case 0
  show ?case by (auto simp add: ancestorsAt_def intro: pathTo.start elim: pathTo.cases)
next
  case (Suc n)
  have "x \<in> set (ancestorsAt cache h (Suc n)) \<longleftrightarrow>
        (\<exists>y. y \<in> set (ancestorsAt cache h n) \<and> x \<in> set (parentsIn cache y))"
    by (auto simp add: ancestorsAt_Suc expand_def)
  also have "\<dots> \<longleftrightarrow> (\<exists>y. pathTo cache h n y \<and> x \<in> set (parentsIn cache y))"
    by (simp add: Suc.IH)
  also have "\<dots> \<longleftrightarrow> pathTo cache h (Suc n) x"
    by (auto intro: pathTo.step elim: pathTo.cases)
  finally show ?case .
qed

lemma loaded_to_first_tag:
  assumes "\<forall>n\<le>d. loaded cache (filter (\<lambda>x. tags x = None) (ancestorsAt cache s n))"
    and "\<forall>n<d. \<forall>x\<in>set (ancestorsAt cache s n). tags x = None"
    and "ancestorsAt cache s d = L1 @ x # L2" and "\<forall>y\<in>set L1. tags y = None"
  shows "loaded cache L1"
    and "\<forall>n<d. (\<forall>x\<in>set (ancestorsAt cache s n). tags x = None) \<and>
               loaded cache (ancestorsAt cache s n)"
proof -
  from assms(1) have "loaded cache (filter (\<lambda>x. tags x = None) (ancestorsAt cache s d))"
    by simp
  with assms(3,4) have "loaded cache (L1 @ filter (\<lambda>x. tags x = None) (x # L2))"
    by simp
  then show "loaded cache L1" by (simp only: loaded_append)
next
  show "\<forall>n<d. (\<forall>x\<in>set (ancestorsAt cache s n). tags x = None) \<and>
               loaded cache (ancestorsAt cache s n)"
  proof (intro allI impI)
    fix n assume n: "n < d"
    with assms(2) have u: "\<forall>x\<in>set (ancestorsAt cache s n). tags x = None" by simp
    then have "filter (\<lambda>x. tags x = None) (ancestorsAt cache s n) = ancestorsAt cache s n"
      by simp
    moreover from n assms(1)
    have "loaded cache (filter (\<lambda>x. tags x = None) (ancestorsAt cache s n))" by simp
    ultimately show "(\<forall>x\<in>set (ancestorsAt cache s n). tags x = None) \<and>
        loaded cache (ancestorsAt cache s n)"
      using u by simp
  qed
qed

text \<open>
  The traversal on a graph that needs no request.  The start node is built from a cached
  commit; the untagged commits up to \<open>d\<close> parent edges from it have their parents in the
  cache; no commit fewer than \<open>d\<close> edges away is tagged and some commit \<open>d\<close> edges away
  is.  Then \<^verbatim>\<open>findClosestTag\<close> returns the distance \<open>d\<close>, the length of the shortest
  path to a tagged commit, and the tag of a commit \<open>d\<close> edges away.
\<close>

lemma findClosestTag_loaded_closest:
  assumes "history < length heap" and "heap ! history = newLazyGitCommit c"
    and "commits ps (commit_sha c) = Some c"
    and "\<forall>n\<le>d. loaded (commits ps)
                 (filter (\<lambda>x. tags x = None) (ancestorsAt (commits ps) (commit_sha c) n))"
    and "\<forall>n<d. \<forall>x\<in>set (ancestorsAt (commits ps) (commit_sha c) n). tags x = None"
    and "\<exists>x\<in>set (ancestorsAt (commits ps) (commit_sha c) d). tags x \<noteq> None"
  shows "\<exists>t x heap'.
           findClosestTag octokit tags history heap ps =
             Some (Inr \<lparr>tag = t, distance = int d\<rparr>, heap') \<and>
           x \<in> set (ancestorsAt (commits ps) (commit_sha c) d) \<and> tags x = Some t"
proof -
  let ?cache = "commits ps"
  from assms(1-3) have start: "unvisitedNode heap ?cache history"
    and s: "sha (heap ! history) = commit_sha c"
    by (simp_all add: unvisitedNode_def newLazyGitCommit_def cached_def parentsIn_def)
  from assms(6) obtain L1 x L2 where
    split: "ancestorsAt ?cache (commit_sha c) d = L1 @ x # L2"
    and x: "tags x \<noteq> None" and L1: "\<forall>y\<in>set L1. \<not> tags y \<noteq> None"
    using split_list_first_prop [of "ancestorsAt ?cache (commit_sha c) d" "\<lambda>x. tags x \<noteq> None"]
    by blast
  from x obtain t where t: "tags x = Some t" by blast
  from L1 have L1': "\<forall>y\<in>set L1. tags y = None" by simp
  note ld = loaded_to_first_tag [OF assms(4) assms(5) split L1']
  have "\<exists>heap'. findClosestTag octokit tags history heap ps =
                  Some (Inr \<lparr>tag = t, distance = int d\<rparr>, heap')"
  proof (rule findClosestTag_first [where ?L1.0 = L1 and h = x and ?L2.0 = L2])
    show "unvisitedNode heap ?cache history" by (rule start)
    show "ancestorsAt ?cache (sha (heap ! history)) d = L1 @ x # L2" using split s by simp
    show "\<forall>x\<in>set L1. tags x = None" by (rule L1')
    show "tags x = Some t" by (rule t)
    show "loaded ?cache L1" by (rule ld(1))
    show "\<forall>n<d. (\<forall>x\<in>set (ancestorsAt ?cache (sha (heap ! history)) n). tags x = None) \<and>
               loaded ?cache (ancestorsAt ?cache (sha (heap ! history)) n)"
      using ld(2) s by simp
  qed
  with split t show ?thesis by auto
qed

lemma fork_level:
  "ancestorsAt (commits forkState) ''M'' 0 = [''M'']"
  "ancestorsAt (commits forkState) ''M'' (Suc 0) = [''A'', ''B'']"
  "ancestorsAt (commits forkState) ''M'' 2 = [''A2'', ''T'']"
  by (simp_all add: ancestorsAt_def expand_def parentsIn_def forkState_def forkCommits_def
      setCommits_def numeral_2_eq_2)

lemma fork_loaded:
  "loaded (commits forkState) [''M'']"
  "loaded (commits forkState) [''A'', ''B'']"
  "loaded (commits forkState) [''A2'']"
  by (simp_all add: loaded_def expand_def parentsIn_def cached_def forkState_def
      forkCommits_def setCommits_def)

lemma fork_closest:
  "map_option fst
     (findClosestTag emptyService forkTags 0 [newLazyGitCommit (hd forkCommits)] forkState) =
   Some (Inr \<lparr>tag = ''v1.0.0'', distance = 2\<rparr>)"
proof -
  let ?c = "hd forkCommits"
  have c: "commit_sha ?c = ''M''" by (simp add: forkCommits_def)
  have 1: "(0::nat) < length [newLazyGitCommit ?c]" by simp
  have 2: "[newLazyGitCommit ?c] ! 0 = newLazyGitCommit ?c" by simp
  have 3: "commits forkState (commit_sha ?c) = Some ?c"
    by (simp add: forkState_def forkCommits_def setCommits_def)
  have 4: "\<forall>n\<le>2. loaded (commits forkState)
             (filter (\<lambda>x. forkTags x = None) (ancestorsAt (commits forkState) (commit_sha ?c) n))"
  proof (intro allI impI)
    fix n :: nat assume "n \<le> 2"
    then consider "n = 0" | "n = 1" | "n = 2" by linarith
    then show "loaded (commits forkState)
             (filter (\<lambda>x. forkTags x = None) (ancestorsAt (commits forkState) (commit_sha ?c) n))"
      by cases (simp_all add: c fork_level fork_loaded forkTags_def setTags_def)
  qed
  have 5: "\<forall>n<2. \<forall>x\<in>set (ancestorsAt (commits forkState) (commit_sha ?c) n). forkTags x = None"
  proof (intro allI impI)
    fix n :: nat assume "n < 2"
    then consider "n = 0" | "n = 1" by linarith
    then show "\<forall>x\<in>set (ancestorsAt (commits forkState) (commit_sha ?c) n). forkTags x = None"
      by cases (simp_all add: c fork_level forkTags_def setTags_def)
  qed
  have 6: "\<exists>x\<in>set (ancestorsAt (commits forkState) (commit_sha ?c) 2). forkTags x \<noteq> None"
    by (simp add: c fork_level forkTags_def setTags_def)
  from findClosestTag_loaded_closest [OF 1 2 3 4 5 6, of emptyService]
  obtain t x heap' where
    r: "findClosestTag emptyService forkTags 0 [newLazyGitCommit ?c] forkState =
          Some (Inr \<lparr>tag = t, distance = int 2\<rparr>, heap')"
    and t: "forkTags x = Some t"
    by blast
  from t have "t = ''v1.0.0''"
    by (simp add: forkTags_def setTags_def split: if_splits)
  with r show ?thesis by simp
qed

section \<open>No tag reachable\<close>

lemma noTag_loop:
  "findClosestTag noTagService (setTags [] Map.empty) 0
     [\<lparr>sha = ''C2'', parentSha = [''C1''], visited = False\<rparr>] chainState = None"
  unfolding findClosestTag_def
proof (rule loop_never_returns [where U = "{''C0'', ''C1'', ''C2''}"])
  show "\<forall>h\<in>{''C0'', ''C1'', ''C2''}. setTags [] Map.empty h = None \<and>
          (\<forall>p\<in>set (parentsIn (commits chainState) h). cached (commits chainState) p \<and> p \<in> {''C0'', ''C1'', ''C2''})"
    by (simp add: setTags_def parentsIn_def cached_def chainState_def chainHistory_def
        setCommits_def)
  show "None \<in> set [Some 0, None]" by simp
  show "\<forall>r. Some r \<in> set [Some 0, None] \<longrightarrow>
          r < length [\<lparr>sha = ''C2'', parentSha = [''C1''], visited = False\<rparr>] \<and>
          sha ([\<lparr>sha = ''C2'', parentSha = [''C1''], visited = False\<rparr>] ! r) \<in> {''C0'', ''C1'', ''C2''} \<and>
          parentSha ([\<lparr>sha = ''C2'', parentSha = [''C1''], visited = False\<rparr>] ! r) =
            parentsIn (commits chainState) (sha ([\<lparr>sha = ''C2'', parentSha = [''C1''], visited = False\<rparr>] ! r))"
    by (simp add: parentsIn_def chainState_def chainHistory_def setCommits_def)
qed

text \<open>
  C1 fails on the code: on the history \<open>C0 \<leftarrow> C1 \<leftarrow> C2\<close> with no tag, started at \<open>C2\<close>,
  the loop of \<^verbatim>\<open>findClosestTag\<close> never ends (the \<^verbatim>\<open>null\<close> it takes from the queue
  is pushed back each time, so the queue never empties), and \<^verbatim>\<open>run\<close> never returns.
\<close>

theorem run_no_tag_never_returns:
  "run noTagService ''C2'' [] world0 = None"
  by (simp add: run_def runWith_def noTag_tags noTag_history noTag_loop)

section \<open>Repeated expansion\<close>

lemma diamond_tags: "getTags diamondService = Some (Inr diamondTags)"
  by (simp add: getTags_def getTags_loop.simps diamondService_def pagedService_def pageOf_def
      pageSize_def diamondTags_def)

lemma diamond_history:
  "getHistory ''C3'' diamondService [] = Some (Inr 0, diamondHeap, diamondState)"
  by (simp add: getHistory_def provider_def enter_def await1.simps respond_def leave_def
      diamondService_def pagedService_def pageOf_def pageSize_def diamondHistory_def setCommits_def
      newLazyGitCommit_def diamondHeap_def diamondState_def)

lemma diamond_found:
  "map_option (\<lambda>(r, heap'). (r, expansions ''C0'' heap'))
     (findClosestTag diamondService diamondTags 0 diamondHeap diamondState) =
   Some (Inr \<lparr>tag = ''v1.0.0'', distance = 3\<rparr>, 2)"
  by (simp add: findClosestTag_def findClosestTag_loop_unfold parents_def awaitAll.simps
      enter_def setTags_def setCommits_def diamondHistory_def newLazyGitCommit_def expansions_def
      diamondTags_def diamondHeap_def diamondState_def)

text \<open>
  C3 fails on the code: in the diamond above a tagged root, started at \<open>C3\<close>, the tags
  and the history are fetched, and the traversal then expands \<open>C0\<close> twice (two objects
  for \<open>C0\<close> end up visited) and returns the distance 3.
\<close>

theorem diamond_expands_twice:
  "getTags diamondService = Some (Inr diamondTags) \<and>
   getHistory ''C3'' diamondService [] = Some (Inr 0, diamondHeap, diamondState) \<and>
   map_option (\<lambda>(r, heap'). (r, expansions ''C0'' heap'))
     (findClosestTag diamondService diamondTags 0 diamondHeap diamondState) =
   Some (Inr \<lparr>tag = ''v1.0.0'', distance = 3\<rparr>, 2)"
  using diamond_tags diamond_history diamond_found by blast

section \<open>A tag with the empty name\<close>

text \<open>
  C10: on a graph that needs no request (the conditions of \<open>findClosestTag_loaded_closest\<close>),
  when the first tagged commit the traversal meets, \<open>d\<close> edges from the start, is mapped
  to the empty name, \<^verbatim>\<open>findClosestTag\<close> returns the empty tag with the
  distance \<open>d\<close>, which is not negative; the empty tag is also the tag of the result for
  no tag, so only the distance tells the two apart; and at distance 0 the version is the
  empty string.
\<close>

theorem findClosestTag_empty_tag:
  assumes "history < length heap" and "heap ! history = newLazyGitCommit c"
    and "commits ps (commit_sha c) = Some c"
    and "\<forall>n\<le>d. loaded (commits ps)
                 (filter (\<lambda>x. tags x = None) (ancestorsAt (commits ps) (commit_sha c) n))"
    and "\<forall>n<d. \<forall>y\<in>set (ancestorsAt (commits ps) (commit_sha c) n). tags y = None"
    and "ancestorsAt (commits ps) (commit_sha c) d = L1 @ x # L2"
    and "\<forall>y\<in>set L1. tags y = None" and "tags x = Some []"
  shows "\<exists>r heap'.
           findClosestTag octokit tags history heap ps = Some (Inr r, heap') \<and>
           tag r = [] \<and> distance r = int d \<and> 0 \<le> distance r \<and>
           (distance r = 0 \<longrightarrow> versionOf r GITHUB_SHA = [])"
proof -
  let ?cache = "commits ps"
  from assms(1-3) have start: "unvisitedNode heap ?cache history"
    and s: "sha (heap ! history) = commit_sha c"
    by (simp_all add: unvisitedNode_def newLazyGitCommit_def cached_def parentsIn_def)
  note ld = loaded_to_first_tag [OF assms(4) assms(5) assms(6) assms(7)]
  have "\<exists>heap'. findClosestTag octokit tags history heap ps =
                  Some (Inr \<lparr>tag = [], distance = int d\<rparr>, heap')"
  proof (rule findClosestTag_first [where ?L1.0 = L1 and h = x and ?L2.0 = L2])
    show "unvisitedNode heap ?cache history" by (rule start)
    show "ancestorsAt ?cache (sha (heap ! history)) d = L1 @ x # L2" using assms(6) s by simp
    show "\<forall>x\<in>set L1. tags x = None" by (rule assms(7))
    show "tags x = Some []" by (rule assms(8))
    show "loaded ?cache L1" by (rule ld(1))
    show "\<forall>n<d. (\<forall>x\<in>set (ancestorsAt ?cache (sha (heap ! history)) n). tags x = None) \<and>
               loaded ?cache (ancestorsAt ?cache (sha (heap ! history)) n)"
      using ld(2) s by simp
  qed
  then obtain heap' where
    "findClosestTag octokit tags history heap ps = Some (Inr \<lparr>tag = [], distance = int d\<rparr>, heap')"
    by blast
  then show ?thesis by (simp add: versionOf_def)
qed

theorem findClosestTag_empty_tag_witness:
  "map_option fst
     (findClosestTag emptyService emptyNameTags 0 [newLazyGitCommit (hd (chainHistory ''C2''))]
        chainState) = Some (Inr \<lparr>tag = [], distance = 0\<rparr>) \<and>
   versionOf \<lparr>tag = [], distance = 0\<rparr> ''C2'' = []"
proof -
  let ?c = "hd (chainHistory ''C2'')"
  have c: "commit_sha ?c = ''C2''" by (simp add: chainHistory_def)
  have 1: "(0::nat) < length [newLazyGitCommit ?c]" by simp
  have 2: "[newLazyGitCommit ?c] ! 0 = newLazyGitCommit ?c" by simp
  have 3: "commits chainState (commit_sha ?c) = Some ?c"
    by (simp add: chainState_def chainHistory_def setCommits_def)
  have 4: "\<forall>n\<le>0. loaded (commits chainState)
             (filter (\<lambda>x. emptyNameTags x = None)
                (ancestorsAt (commits chainState) (commit_sha ?c) n))"
    by (simp add: c ancestorsAt_def loaded_def expand_def emptyNameTags_def setTags_def)
  have 5: "\<forall>n<0. \<forall>y\<in>set (ancestorsAt (commits chainState) (commit_sha ?c) n). emptyNameTags y = None"
    by simp
  have 6: "ancestorsAt (commits chainState) (commit_sha ?c) 0 = [] @ ''C2'' # []"
    by (simp add: c ancestorsAt_def)
  have 7: "\<forall>y\<in>set []. emptyNameTags y = None" by simp
  have 8: "emptyNameTags ''C2'' = Some []" by (simp add: emptyNameTags_def setTags_def)
  from findClosestTag_empty_tag [OF 1 2 3 4 5 6 7 8, of emptyService "''C2''"]
  show ?thesis by (auto simp add: versionOf_def)
qed

section \<open>The order of the parents\<close>

lemma pendingFrom_shift:
  assumes "Suc k \<le> i \<and> i - Suc k < length ts \<and> ts ! (i - Suc k) = Pending h p"
  shows "k \<le> i \<and> i - k < length (t # ts) \<and> (t # ts) ! (i - k) = Pending h p"
proof -
  from assms have "i - k = Suc (i - Suc k)" by arith
  with assms show ?thesis by simp
qed

lemma pendingFrom_mem:
  "(i, h, p) \<in> set (pendingFrom k ts) \<Longrightarrow> k \<le> i \<and> i - k < length ts \<and> ts ! (i - k) = Pending h p"
proof (induction ts arbitrary: k)
  case Nil
  then show ?case by simp
next
  case (Cons t ts)
  show ?case
  proof (cases "\<exists>q. t = Pending h q \<and> (i, h, p) = (k, h, q)")
    case True
    then show ?thesis by auto
  next
    case False
    with Cons.prems have "(i, h, p) \<in> set (pendingFrom (Suc k) ts)"
      by (cases t) auto
    from pendingFrom_shift [OF Cons.IH [OF this]] show ?thesis .
  qed
qed

lemma pendingFrom_Nil:
  "pendingFrom k ts = [] \<Longrightarrow> Pending h p \<notin> set ts"
proof (induction ts arbitrary: k)
  case Nil
  then show ?case by simp
next
  case (Cons t ts)
  then show ?case by (cases t) simp_all
qed

lemma fulfilled_shas:
  assumes "length ts = length hs"
    and "\<forall>i<length hs. \<exists>c. ts ! i = Fulfilled c \<and> commit_sha c = hs ! i"
  shows "map commit_sha (fulfilled ts) = hs"
  using assms
proof (induction ts arbitrary: hs)
  case Nil
  then show ?case by simp
next
  case (Cons t ts)
  then obtain h hs' where hs: "hs = h # hs'" by (cases hs) auto
  from Cons.prems(2) hs have "\<exists>c. (t # ts) ! 0 = Fulfilled c \<and> commit_sha c = (h # hs') ! 0"
    by blast
  then obtain c where t: "t = Fulfilled c" and c: "commit_sha c = h" by auto
  have "\<forall>i<length hs'. \<exists>c. ts ! i = Fulfilled c \<and> commit_sha c = hs' ! i"
  proof (intro allI impI)
    fix i assume "i < length hs'"
    then have "Suc i < length hs" using hs by simp
    with Cons.prems(2) have "\<exists>c. (t # ts) ! Suc i = Fulfilled c \<and> commit_sha c = hs ! Suc i"
      by blast
    with hs have "\<exists>c. (t # ts) ! Suc i = Fulfilled c \<and> commit_sha c = (h # hs') ! Suc i"
      by simp
    then show "\<exists>c. ts ! i = Fulfilled c \<and> commit_sha c = hs' ! i" by simp
  qed
  with Cons.IH [of hs'] Cons.prems(1) hs have "map commit_sha (fulfilled ts) = hs'" by simp
  with t c hs show ?case by simp
qed

lemma cacheKeyedD: "cacheKeyed m \<Longrightarrow> m h = Some c \<Longrightarrow> commit_sha c = h"
  unfolding cacheKeyed_def by blast

lemma cacheKeyed_upd:
  assumes "cacheKeyed m"
  shows "cacheKeyed (m(commit_sha c \<mapsto> c))"
  unfolding cacheKeyed_def
proof (intro allI impI)
  fix h c' assume a: "(m(commit_sha c \<mapsto> c)) h = Some c'"
  show "commit_sha c' = h"
  proof (cases "h = commit_sha c")
    case True
    with a show ?thesis by simp
  next
    case False
    with a have "m h = Some c'" by simp
    from cacheKeyedD [OF assms this] show ?thesis .
  qed
qed

lemma setCommits_keyed:
  "cacheKeyed m \<Longrightarrow> cacheKeyed (setCommits rawCommits m)"
  unfolding setCommits_def
  by (induction rawCommits arbitrary: m) (simp_all add: cacheKeyed_upd)

lemma enter_cases:
  assumes "cacheKeyed (commits ps)"
  shows "(\<exists>p. enter ps h = Pending h p) \<or> (\<exists>c. enter ps h = Fulfilled c \<and> commit_sha c = h)"
proof (cases "commits ps h")
  case None
  then show ?thesis by (simp add: enter_def)
next
  case (Some c)
  from cacheKeyedD [OF assms Some] Some show ?thesis by (simp add: enter_def)
qed

lemma leave_cases:
  assumes "cacheKeyed (commits ps)"
  shows "(\<exists>e. leave ps h = Rejected e) \<or> (\<exists>c. leave ps h = Fulfilled c \<and> commit_sha c = h)"
proof (cases "commits ps h")
  case None
  then show ?thesis by (simp add: leave_def)
next
  case (Some c)
  from cacheKeyedD [OF assms Some] Some show ?thesis by (simp add: leave_def)
qed

lemma respond_keyed:
  assumes "respond octokit h p ps = (t', ps')" and "cacheKeyed (commits ps)"
  shows "cacheKeyed (commits ps') \<and>
         ((\<exists>p'. t' = Pending h p') \<or> (\<exists>c. t' = Fulfilled c \<and> commit_sha c = h) \<or>
          (\<exists>e. t' = Rejected e))"
proof (cases "listCommits octokit h p pageSize")
  case (Inl e)
  with assms show ?thesis by (auto simp add: respond_def)
next
  case (Inr rawCommits)
  let ?ps = "ps\<lparr>page := page ps + 1, commits := setCommits rawCommits (commits ps)\<rparr>"
  have k: "cacheKeyed (commits ?ps)" using assms(2) by (simp add: setCommits_keyed)
  from assms(1) Inr have ps': "ps' = ?ps"
    and t': "t' = (if length rawCommits < pageSize then leave ?ps h else enter ?ps h)"
    by (auto simp add: respond_def Let_def split: if_splits)
  from enter_cases [OF k, of h] leave_cases [OF k, of h] t' have
    "(\<exists>p'. t' = Pending h p') \<or> (\<exists>c. t' = Fulfilled c \<and> commit_sha c = h) \<or> (\<exists>e. t' = Rejected e)"
    by (cases "length rawCommits < pageSize") auto
  with k ps' show ?thesis by simp
qed

lemma awaitAll_shas:
  assumes "awaitAll octokit ts ps = Some (Inr cs, ps')"
    and "length ts = length hs"
    and "\<forall>i<length hs. (\<exists>p. ts ! i = Pending (hs ! i) p) \<or>
                        (\<exists>c. ts ! i = Fulfilled c \<and> commit_sha c = hs ! i)"
    and "cacheKeyed (commits ps)"
  shows "map commit_sha cs = hs \<and> cacheKeyed (commits ps')"
proof -
  let ?inv = "\<lambda>ts ps. length ts = length hs \<and>
      (\<forall>i<length hs. (\<exists>p. ts ! i = Pending (hs ! i) p) \<or>
                      (\<exists>c. ts ! i = Fulfilled c \<and> commit_sha c = hs ! i)) \<and>
      cacheKeyed (commits ps)"
  let ?P = "\<lambda>(octokit'::service) ts ps (y::(thrown + Commit list) \<times> pstate).
      octokit' = octokit \<longrightarrow> ?inv ts ps \<longrightarrow>
      (\<forall>cs ps'. y = (Inr cs, ps') \<longrightarrow> map commit_sha cs = hs \<and> cacheKeyed (commits ps'))"
  have "?P octokit ts ps (Inr cs, ps')"
  proof (rule awaitAll.raw_induct [where P = ?P, OF _ assms(1)], intro impI allI)
    fix loop octokit' ts ps y cs ps'
    assume IH: "\<And>octokit' ts ps y. loop octokit' ts ps = Some y \<Longrightarrow> ?P octokit' ts ps y"
      and body: "(case pendingFrom 0 ts of
          [] \<Rightarrow> Some (Inr (fulfilled ts), ps)
        | r # rs \<Rightarrow>
            (case (r # rs) ! (arrival octokit' (map snd (r # rs)) mod length (r # rs)) of
               (i, hash, p) \<Rightarrow>
                 (case respond octokit' hash p ps of
                    (Rejected e, ps') \<Rightarrow> Some (Inl e, ps')
                  | (t', ps') \<Rightarrow> loop octokit' (ts[i := t']) ps'))) = Some y"
      and eq: "octokit' = octokit" and inv: "?inv ts ps" and y: "y = (Inr cs, ps')"
    show "map commit_sha cs = hs \<and> cacheKeyed (commits ps')"
    proof (cases "pendingFrom 0 ts")
      case Nil
      with body y have cs: "cs = fulfilled ts" and ps': "ps' = ps" by simp_all
      have "\<forall>i<length hs. \<exists>c. ts ! i = Fulfilled c \<and> commit_sha c = hs ! i"
      proof (intro allI impI)
        fix i assume i: "i < length hs"
        with inv have "ts ! i \<in> set ts" by simp
        with pendingFrom_Nil [OF Nil] have "\<forall>h p. ts ! i \<noteq> Pending h p" by fastforce
        with inv i show "\<exists>c. ts ! i = Fulfilled c \<and> commit_sha c = hs ! i" by blast
      qed
      with fulfilled_shas [of ts hs] inv cs ps' show ?thesis by simp
    next
      case (Cons r rs)
      obtain i hash p where sel: "(r # rs) ! (arrival octokit' (map snd (r # rs)) mod length (r # rs)) = (i, hash, p)"
        by (cases "(r # rs) ! (arrival octokit' (map snd (r # rs)) mod length (r # rs))") auto
      have "(r # rs) ! (arrival octokit' (map snd (r # rs)) mod length (r # rs)) \<in> set (r # rs)"
        by (rule nth_mem) simp
      with sel Cons have "(i, hash, p) \<in> set (pendingFrom 0 ts)" by simp
      from pendingFrom_mem [OF this] have i: "i < length ts" and ti: "ts ! i = Pending hash p"
        by simp_all
      with inv have hash: "hash = hs ! i" by auto
      obtain t' ps1 where resp: "respond octokit' hash p ps = (t', ps1)"
        by (cases "respond octokit' hash p ps") auto
      from respond_keyed [OF resp] inv have k1: "cacheKeyed (commits ps1)"
        and t': "(\<exists>p'. t' = Pending hash p') \<or> (\<exists>c. t' = Fulfilled c \<and> commit_sha c = hash) \<or>
                 (\<exists>e. t' = Rejected e)"
        by simp_all
      from body Cons sel resp y have nr: "\<forall>e. t' \<noteq> Rejected e"
        by (auto split: task.splits)
      with body Cons sel resp have run: "loop octokit' (ts[i := t']) ps1 = Some y"
        by (cases t') simp_all
      have "?inv (ts[i := t']) ps1"
      proof (intro conjI allI impI)
        show "length (ts[i := t']) = length hs" using inv by simp
        show "cacheKeyed (commits ps1)" by (rule k1)
        fix j assume j: "j < length hs"
        show "(\<exists>p. ts[i := t'] ! j = Pending (hs ! j) p) \<or>
              (\<exists>c. ts[i := t'] ! j = Fulfilled c \<and> commit_sha c = hs ! j)"
        proof (cases "j = i")
          case True
          with i t' nr hash show ?thesis by auto
        next
          case False
          with inv j show ?thesis by simp
        qed
      qed
      with IH [OF run] eq y show ?thesis by blast
    qed
  qed
  with assms(2-4) show ?thesis by blast
qed

text \<open>
  C8: a turn of the loop that takes an unvisited, untagged node from the queue and whose
  call of \<^verbatim>\<open>parents()\<close> returns, in whatever order the answers to the requests for the
  parents arrived, leaves the queue with the new nodes appended, and the identifiers of the
  new nodes are the parent identifiers of the node, in the same order.  So when the first
  parent identifier is tagged, the loop that starts at the node returns that tag, one level
  down, also when the answer for another parent came first.  (The cache holds each commit
  under its own identifier, as every state of the provider does.)
\<close>

theorem parents_enqueued_in_order:
  assumes "cacheKeyed (commits ps)" and "\<not> visited (heap ! head)"
    and "tags (sha (heap ! head)) = None"
    and "parents octokit head (heap[head := (heap ! head)\<lparr>visited := True\<rparr>]) ps =
           Some (Inr ns, heap', ps')"
  shows "findClosestTag_step octokit tags heap ps (Some head # rest) depth =
           Some (Inr (heap', ps', rest @ map Some ns, depth)) \<and>
         map (\<lambda>n. sha (heap' ! n)) ns = parentSha (heap ! head) \<and>
         (\<forall>x L t. parentSha (heap ! head) = x # L \<and> tags x = Some t \<longrightarrow>
            findClosestTag_loop octokit tags heap ps [Some head, None] depth =
              Some (Inr \<lparr>tag = t, distance = int depth + 1\<rparr>, heap'))"
proof (intro conjI allI impI)
  show turn: "findClosestTag_step octokit tags heap ps (Some head # rest) depth =
        Some (Inr (heap', ps', rest @ map Some ns, depth))" for rest
    using assms(2-4) by (simp add: findClosestTag_step_def)
  let ?heap1 = "heap[head := (heap ! head)\<lparr>visited := True\<rparr>]"
  let ?hs = "parentSha (?heap1 ! head)"
  have hs: "?hs = parentSha (heap ! head)"
    by (cases "head < length heap") (simp_all add: list_update_beyond)
  from assms(4) obtain cs where
    all: "awaitAll octokit (map (enter ps) ?hs) ps = Some (Inr cs, ps')"
    and ns: "ns = [length ?heap1..<length ?heap1 + length cs]"
    and heap': "heap' = ?heap1 @ map newLazyGitCommit cs"
    by (auto simp add: parents_def split: option.splits sum.splits)
  have "\<forall>i<length ?hs. (\<exists>p. map (enter ps) ?hs ! i = Pending (?hs ! i) p) \<or>
          (\<exists>c. map (enter ps) ?hs ! i = Fulfilled c \<and> commit_sha c = ?hs ! i)"
    using enter_cases [OF assms(1)] by simp
  with awaitAll_shas [OF all, of ?hs] assms(1) have shas: "map commit_sha cs = ?hs" by simp
  have node: "heap' ! (length ?heap1 + i) = newLazyGitCommit (cs ! i)" if "i < length cs" for i
    using that by (simp add: heap' nth_append)
  have "map (\<lambda>n. sha (heap' ! n)) ns = map commit_sha cs"
  proof (rule nth_equalityI)
    show "length (map (\<lambda>n. sha (heap' ! n)) ns) = length (map commit_sha cs)"
      by (simp add: ns)
  next
    fix i assume "i < length (map (\<lambda>n. sha (heap' ! n)) ns)"
    then have i: "i < length cs" by (simp add: ns)
    with node [OF i] show "map (\<lambda>n. sha (heap' ! n)) ns ! i = map commit_sha cs ! i"
      by (simp add: ns newLazyGitCommit_def)
  qed
  with shas hs show order: "map (\<lambda>n. sha (heap' ! n)) ns = parentSha (heap ! head)" by simp
  fix x L t assume first: "parentSha (heap ! head) = x # L \<and> tags x = Some t"
  with shas hs obtain c cs' where cs: "cs = c # cs'" and c: "commit_sha c = x"
    by (cases cs) auto
  have ns': "ns = length ?heap1 # [Suc (length ?heap1)..<length ?heap1 + length cs]"
    unfolding ns by (rule upt_conv_Cons) (simp add: cs)
  from node [of 0] cs have n0: "heap' ! length ?heap1 = newLazyGitCommit c" by simp
  have "findClosestTag_loop octokit tags heap ps [Some head, None] depth =
        findClosestTag_loop octokit tags heap' ps' ([None] @ map Some ns) depth"
    using turn [of "[None]"] by (subst findClosestTag_loop.simps) simp
  also have "\<dots> = findClosestTag_loop octokit tags heap' ps' (map Some ns @ [None]) (depth + 1)"
    by (subst findClosestTag_loop_unfold) simp
  also have "\<dots> = Some (Inr \<lparr>tag = t, distance = int depth + 1\<rparr>, heap')"
    using ns' n0 c first
    by (subst findClosestTag_loop_unfold) (simp add: newLazyGitCommit_def)
  finally show "findClosestTag_loop octokit tags heap ps [Some head, None] depth =
      Some (Inr \<lparr>tag = t, distance = int depth + 1\<rparr>, heap')" .
qed

text \<open>
  The merge of \<open>A\<close> and \<open>B\<close> at the end of the chain of 100 commits.  \<^verbatim>\<open>getTags\<close> and
  \<^verbatim>\<open>getHistory\<close> give the tag index and the provider state; after 198 turns the loop has
  the merge \<open>c99\<close> at the head of the queue, with neither \<open>A\<close> nor \<open>B\<close> in the cache; both
  are requested, and the answer for \<open>B\<close> is delivered first.  The nodes of \<open>A\<close> and \<open>B\<close> are
  enqueued in this order all the same, and \<^verbatim>\<open>run\<close> ends with the tag \<open>a\<close> of \<open>A\<close>.
\<close>

lemma merge_tags: "getTags secondFirstService = Some (Inr mergeTags)"
  by (simp add: getTags_def getTags_loop.simps secondFirstService_def pageOf_def pageSize_def
      mergeTags_def)

lemma merge_history:
  "getHistory (longSha 0) secondFirstService [] = Some (Inr 0, [mergeNode False 0], mergeState)"
proof -
  have l: "listCommits secondFirstService (longSha 0) 0 100 = Inr (map mergeCommit [0..<100])"
    by code_simp
  have c: "setCommits (map mergeCommit [0..<100]) Map.empty (longSha 0) = Some (mergeCommit 0)"
    by code_simp
  show ?thesis
    by (simp add: getHistory_def provider_def enter_def await1.simps respond_def l c Let_def
        pageSize_def mergeState_def mergeNode_def newLazyGitCommit_def)
qed

lemma merge_reached:
  "map_option
     (map_sum id (\<lambda>(heap, ps, todo, depth).
        (heap, page ps, map (commits ps) (''A'' # ''B'' # ''T'' # map longSha [0..<100]), todo,
         depth)))
     (findClosestTag_steps 198 secondFirstService mergeTags [mergeNode False 0] mergeState
        [Some 0, None] 0) =
   Some (Inr (mergeHeap, 1,
     map (commits mergeState) (''A'' # ''B'' # ''T'' # map longSha [0..<100]), [Some 99, None],
     99))"
  by code_simp

lemma merge_parents:
  "map_option (\<lambda>(r, heap', ps'). (r, heap', page ps'))
     (parents secondFirstService 99 (mergeHeap[99 := (mergeHeap ! 99)\<lparr>visited := True\<rparr>])
        mergeState) =
   Some (Inr [100, 101], mergeHeap', 3)"
  by code_simp

lemma merge_facts:
  "\<not> visited (mergeHeap ! 99) \<and> mergeTags (sha (mergeHeap ! 99)) = None \<and>
   parentSha (mergeHeap ! 99) = [''A'', ''B''] \<and> mergeTags ''A'' = Some ''a'' \<and>
   mergeTags ''B'' = Some ''b'' \<and>
   arrival secondFirstService [(''A'', 1), (''B'', 1)] = 1 \<and>
   map (\<lambda>n. sha (mergeHeap' ! n)) [100, 101] = [''A'', ''B'']"
  by code_simp

lemma merge_run:
  "run secondFirstService (longSha 0) [] world0 =
     Some \<lparr>outputs = [(''version'', ''a-100-c0'')], envFile = ''VERSION=a-100-c0'',
       failure = None\<rparr>"
  by code_simp

theorem parents_enqueued_in_order_witness:
  "map_option (map_sum id (\<lambda>(heap', ps', todo', depth'). (heap', page ps', todo', depth')))
     (findClosestTag_step secondFirstService mergeTags mergeHeap mergeState [Some 99, None] 99) =
     Some (Inr (mergeHeap', 3, [None, Some 100, Some 101], 99)) \<and>
   map (\<lambda>n. sha (mergeHeap' ! n)) [100, 101] = parentSha (mergeHeap ! 99) \<and>
   parentSha (mergeHeap ! 99) = [''A'', ''B''] \<and>
   arrival secondFirstService [(''A'', 1), (''B'', 1)] = 1 \<and>
   map_option fst
     (findClosestTag_loop secondFirstService mergeTags mergeHeap mergeState [Some 99, None] 99) =
     Some (Inr \<lparr>tag = ''a'', distance = 100\<rparr>)"
proof -
  have "cacheKeyed Map.empty" by (simp add: cacheKeyed_def)
  then have 1: "cacheKeyed (commits mergeState)"
    by (simp add: mergeState_def setCommits_keyed)
  from merge_facts have 2: "\<not> visited (mergeHeap ! 99)"
    and 3: "mergeTags (sha (mergeHeap ! 99)) = None"
    and par: "parentSha (mergeHeap ! 99) = [''A'', ''B'']" and a: "mergeTags ''A'' = Some ''a''"
    and arr: "arrival secondFirstService [(''A'', 1), (''B'', 1)] = 1"
    by simp_all
  from merge_parents obtain ps' where
    4: "parents secondFirstService 99 (mergeHeap[99 := (mergeHeap ! 99)\<lparr>visited := True\<rparr>])
          mergeState = Some (Inr [100, 101], mergeHeap', ps')"
    and pg: "page ps' = 3"
    by auto
  from parents_enqueued_in_order [where tags = mergeTags and heap = mergeHeap and head = 99
      and ps = mergeState and octokit = secondFirstService and rest = "[None]" and depth = 99,
      OF 1 2 3 4] par a pg arr
  show ?thesis by auto
qed

section \<open>Termination of the pagination loops\<close>

lemma setTags_append: "setTags (xs @ ys) m = setTags ys (setTags xs m)"
  by (simp add: setTags_def)

lemma pageSize_pos: "0 < pageSize"
  by (simp add: pageSize_def)

lemma length_pageOf:
  "length (pageOf pageSize p xs) = min pageSize (length xs - p * pageSize)"
  by (simp add: pageOf_def)

lemma page_full_iff:
  "length (pageOf pageSize p xs) = pageSize \<longleftrightarrow> p < length xs div pageSize"
proof -
  have "0 < a \<Longrightarrow> (a \<le> b - c) = (a + c \<le> b)" for a b c :: nat
    by arith
  from this [OF pageSize_pos, of "length xs" "p * pageSize"]
  have "pageSize \<le> length xs - p * pageSize \<longleftrightarrow> (p + 1) * pageSize \<le> length xs"
    by (simp add: algebra_simps)
  also have "\<dots> \<longleftrightarrow> p + 1 \<le> length xs div pageSize"
    using pageSize_pos by (simp add: less_eq_div_iff_mult_less_eq)
  finally show ?thesis using pageSize_pos by (auto simp add: length_pageOf)
qed

lemma page_short_iff:
  "length (pageOf pageSize p xs) < pageSize \<longleftrightarrow> length xs div pageSize \<le> p"
proof -
  have "length (pageOf pageSize p xs) \<le> pageSize" by (simp add: length_pageOf)
  with page_full_iff [of p xs] show ?thesis by linarith
qed

lemma getTags_loop_paged:
  assumes "p \<le> length allTags div pageSize"
  shows "getTags_loop (pagedService allTags history arr) p result =
           Some (Inr (setTags (drop (p * pageSize) allTags) result,
                      length allTags div pageSize + 1))"
  using assms
proof (induction "length allTags div pageSize - p" arbitrary: p result)
  case 0
  then have p: "p = length allTags div pageSize" by simp
  then have short: "length (pageOf pageSize p allTags) \<noteq> pageSize"
    using page_full_iff [of p allTags] by simp
  have "length (drop (p * pageSize) allTags) \<le> pageSize"
    using short by (simp add: pageOf_def)
  then have "pageOf pageSize p allTags = drop (p * pageSize) allTags"
    by (simp add: pageOf_def)
  with short p show ?case
    by (subst getTags_loop.simps) (simp add: pagedService_def)
next
  case (Suc n)
  then have lt: "p < length allTags div pageSize" by simp
  then have full: "length (pageOf pageSize p allTags) = pageSize"
    by (simp add: page_full_iff)
  from Suc.hyps(2) have n: "n = length allTags div pageSize - (p + 1)" by simp
  from lt have le: "p + 1 \<le> length allTags div pageSize" by simp
  have "drop (p * pageSize) allTags =
          pageOf pageSize p allTags @ drop ((p + 1) * pageSize) allTags"
    by (simp add: pageOf_def add.commute drop_drop [symmetric] del: drop_drop)
  then have "setTags (drop (p * pageSize) allTags) result =
          setTags (drop ((p + 1) * pageSize) allTags) (setTags (pageOf pageSize p allTags) result)"
    by (simp add: setTags_append)
  with Suc.hyps(1) [OF n le, of "setTags (pageOf pageSize p allTags) result"] full
  show ?case
    by (subst getTags_loop.simps) (simp add: pagedService_def)
qed

lemma await1_paged:
  "\<exists>r ps'. await1 (pagedService allTags history arr) (Pending hash (page ps)) ps = Some (r, ps') \<and>
            page ps' \<le> max (page ps) (length (history hash) div pageSize) + 1"
proof (induction "length (history hash) div pageSize - page ps" arbitrary: ps)
  case 0
  let ?raw = "pageOf pageSize (page ps) (history hash)"
  let ?ps1 = "ps\<lparr>page := page ps + 1, commits := setCommits ?raw (commits ps)\<rparr>"
  from 0 have "length ?raw < pageSize" by (simp add: page_short_iff)
  then have "respond (pagedService allTags history arr) hash (page ps) ps = (leave ?ps1 hash, ?ps1)"
    by (simp add: respond_def pagedService_def Let_def)
  then show ?case
    by (subst await1.simps)
      (cases "commits ?ps1 hash"; simp add: leave_def; subst await1.simps; simp)
next
  case (Suc n)
  let ?raw = "pageOf pageSize (page ps) (history hash)"
  let ?ps1 = "ps\<lparr>page := page ps + 1, commits := setCommits ?raw (commits ps)\<rparr>"
  from Suc.hyps(2) have lt: "page ps < length (history hash) div pageSize" by simp
  then have "\<not> length ?raw < pageSize" by (simp add: page_short_iff)
  then have resp: "respond (pagedService allTags history arr) hash (page ps) ps = (enter ?ps1 hash, ?ps1)"
    by (simp add: respond_def pagedService_def Let_def)
  show ?case
  proof (cases "commits ?ps1 hash")
    case None
    then have e: "enter ?ps1 hash = Pending hash (page ?ps1)" by (simp add: enter_def)
    from Suc.hyps(2) have "n = length (history hash) div pageSize - page ?ps1" by simp
    from Suc.hyps(1) [OF this] obtain r ps' where
      "await1 (pagedService allTags history arr) (Pending hash (page ?ps1)) ?ps1 = Some (r, ps')"
      and "page ps' \<le> max (page ?ps1) (length (history hash) div pageSize) + 1"
      by blast
    with resp e lt show ?thesis
      by (subst await1.simps) auto
  next
    case (Some c)
    then have "enter ?ps1 hash = Fulfilled c" by (simp add: enter_def)
    with resp show ?thesis
      by (subst await1.simps) (simp, subst await1.simps, simp)
  qed
qed

lemma provider_paged:
  "\<exists>r ps'. provider (pagedService allTags history arr) hash ps = Some (r, ps') \<and>
            page ps' \<le> max (page ps) (length (history hash) div pageSize) + 1"
proof (cases "commits ps hash")
  case None
  then have "enter ps hash = Pending hash (page ps)" by (simp add: enter_def)
  with await1_paged [of allTags history arr hash ps] show ?thesis
    by (simp add: provider_def)
next
  case (Some c)
  then have "enter ps hash = Fulfilled c" by (simp add: enter_def)
  then show ?thesis
    by (simp add: provider_def await1.simps)
qed

lemma respond_paged:
  "respond (pagedService allTags history arr) h p ps =
     (let ps1 = ps\<lparr>page := page ps + 1,
                    commits := setCommits (pageOf pageSize p (history h)) (commits ps)\<rparr>
      in if length (history h) div pageSize \<le> p then (leave ps1 h, ps1) else (enter ps1 h, ps1))"
  by (simp add: respond_def pagedService_def Let_def page_short_iff)

lemma sum_list_map_update:
  fixes w :: "'a \<Rightarrow> nat"
  shows "i < length ts \<Longrightarrow> sum_list (map w (ts[i := t])) + w (ts ! i) = sum_list (map w ts) + w t"
proof (induction ts arbitrary: i)
  case Nil
  then show ?case by simp
next
  case (Cons a ts)
  then show ?case by (cases i) auto
qed

lemma le_sum_list_map:
  fixes w :: "'a \<Rightarrow> nat"
  shows "t \<in> set ts \<Longrightarrow> w t \<le> sum_list (map w ts)"
  by (induction ts) auto

lemma awaitAll_paged:
  assumes "\<forall>t\<in>set ts. \<forall>h p. t = Pending h p \<longrightarrow> length (history h) div pageSize \<le> B"
  shows "\<exists>r. awaitAll (pagedService allTags history arr) ts ps = Some r"
proof -
  define w where "w = (\<lambda>t. case t of Pending h p \<Rightarrow> (if p < B then 2 else 1 :: nat) | _ \<Rightarrow> 0)"
  have wP: "w (Pending h p) = (if p < B then 2 else 1)" for h p by (simp add: w_def)
  have wF: "w (Fulfilled c) = 0" for c by (simp add: w_def)
  show ?thesis
    using assms
  proof (induction "(B - page ps) + sum_list (map w ts)" arbitrary: ts ps rule: less_induct)
    case less
    let ?svc = "pagedService allTags history arr"
    show ?case
    proof (cases "pendingFrom 0 ts")
      case Nil
      then show ?thesis by (subst awaitAll.simps) simp
    next
      case (Cons r rs)
      obtain i h p where sel: "(r # rs) ! (arrival ?svc (map snd (r # rs)) mod length (r # rs)) = (i, h, p)"
        by (cases "(r # rs) ! (arrival ?svc (map snd (r # rs)) mod length (r # rs))") auto
      have "(r # rs) ! (arrival ?svc (map snd (r # rs)) mod length (r # rs)) \<in> set (r # rs)"
        by (rule nth_mem) simp
      with sel Cons have "(i, h, p) \<in> set (pendingFrom 0 ts)" by simp
      from pendingFrom_mem [OF this] have i: "i < length ts" and ti: "ts ! i = Pending h p"
        by simp_all
      from i ti less.prems have bound: "length (history h) div pageSize \<le> B"
        by (metis nth_mem)
      let ?ps1 = "ps\<lparr>page := page ps + 1,
                    commits := setCommits (pageOf pageSize p (history h)) (commits ps)\<rparr>"
      obtain t' where resp: "respond ?svc h p ps = (t', ?ps1)"
        and t': "t' = (if length (history h) div pageSize \<le> p then leave ?ps1 h else enter ?ps1 h)"
        by (simp add: respond_paged Let_def)
      show ?thesis
      proof (cases t')
        case (Rejected e)
        with Cons sel resp show ?thesis by (subst awaitAll.simps) simp
      next
        case (Fulfilled c)
        have "sum_list (map w (ts[i := t'])) + w (ts ! i) = sum_list (map w ts) + w t'"
          using i by (rule sum_list_map_update)
        with Fulfilled ti have "sum_list (map w (ts[i := t'])) < sum_list (map w ts)"
          by (simp add: wP wF split: if_splits)
        then have m: "(B - page ?ps1) + sum_list (map w (ts[i := t'])) < (B - page ps) + sum_list (map w ts)"
          by simp
        have inv: "\<forall>t\<in>set (ts[i := t']). \<forall>h p. t = Pending h p \<longrightarrow> length (history h) div pageSize \<le> B"
          using less.prems Fulfilled set_update_subset_insert [of ts i t'] by auto
        from less.hyps [OF m inv] obtain res where
          "awaitAll ?svc (ts[i := t']) ?ps1 = Some res" by blast
        with Cons sel resp Fulfilled show ?thesis by (subst awaitAll.simps) simp
      next
        case (Pending h' p')
        with t' have full: "\<not> length (history h) div pageSize \<le> p"
          and e: "enter ?ps1 h = Pending h' p'"
          by (auto simp add: leave_def split: if_splits option.splits)
        from e have h': "h' = h" and p': "p' = page ps + 1"
          by (auto simp add: enter_def split: option.splits)
        from full bound have pB: "p < B" by simp
        have "sum_list (map w (ts[i := t'])) + w (ts ! i) = sum_list (map w ts) + w t'"
          using i by (rule sum_list_map_update)
        with ti pB Pending p' have
          "sum_list (map w (ts[i := t'])) + 2 = sum_list (map w ts) + (if page ps + 1 < B then 2 else 1)"
          by (simp add: wP)
        then have m: "(B - page ?ps1) + sum_list (map w (ts[i := t'])) < (B - page ps) + sum_list (map w ts)"
          by (auto split: if_splits)
        have inv: "\<forall>t\<in>set (ts[i := t']). \<forall>h p. t = Pending h p \<longrightarrow> length (history h) div pageSize \<le> B"
          using less.prems Pending h' bound set_update_subset_insert [of ts i t'] by auto
        from less.hyps [OF m inv] obtain res where
          "awaitAll ?svc (ts[i := t']) ?ps1 = Some res" by blast
        with Cons sel resp Pending show ?thesis by (subst awaitAll.simps) simp
      qed
    qed
  qed
qed

lemma awaitAll_paged_terminates:
  "\<exists>r. awaitAll (pagedService allTags history arr) ts ps = Some r"
proof -
  let ?b = "\<lambda>t. case t of Pending h p \<Rightarrow> length (history h) div pageSize | _ \<Rightarrow> 0"
  have "\<forall>t\<in>set ts. \<forall>h p. t = Pending h p \<longrightarrow>
          length (history h) div pageSize \<le> sum_list (map ?b ts)"
  proof (intro ballI allI impI)
    fix t h p assume t: "t \<in> set ts" and "t = Pending h p"
    from t have "?b t \<le> sum_list (map ?b ts)"
      by (rule le_sum_list_map)
    with \<open>t = Pending h p\<close> show "length (history h) div pageSize \<le> sum_list (map ?b ts)"
      by simp
  qed
  then show ?thesis by (rule awaitAll_paged)
qed

text \<open>
  C5: against a service that pages finite lists, \<^verbatim>\<open>getTags\<close> returns after
  \<open>length allTags div 100 + 1\<close> requests with all the tags stored: the full pages and one
  more request, which a list of exactly \<open>100 * k\<close> tags answers with the empty page.  A
  call of the provider returns (a commit or the error) with the page counter at most one
  past the larger of its value at the call and the number of full pages of the history
  asked for.  The calls awaited together by \<^verbatim>\<open>parents()\<close> all end as well, in whatever
  order the answers arrive.
\<close>

theorem pagination_terminates:
  "getTags_loop (pagedService allTags history arr) 0 Map.empty =
     Some (Inr (setTags allTags Map.empty, length allTags div pageSize + 1)) \<and>
   getTags (pagedService allTags history arr) = Some (Inr (setTags allTags Map.empty)) \<and>
   (\<exists>r ps'. provider (pagedService allTags history arr) hash ps = Some (r, ps') \<and>
             page ps' \<le> max (page ps) (length (history hash) div pageSize) + 1) \<and>
   (\<exists>r. awaitAll (pagedService allTags history arr) ts ps = Some r)"
proof -
  have "getTags_loop (pagedService allTags history arr) 0 Map.empty =
          Some (Inr (setTags (drop (0 * pageSize) allTags) Map.empty,
                     length allTags div pageSize + 1))"
    by (rule getTags_loop_paged) simp
  then have loop: "getTags_loop (pagedService allTags history arr) 0 Map.empty =
          Some (Inr (setTags allTags Map.empty, length allTags div pageSize + 1))"
    by simp
  then have "getTags (pagedService allTags history arr) = Some (Inr (setTags allTags Map.empty))"
    by (simp add: getTags_def)
  with loop provider_paged [of allTags history arr hash ps]
    awaitAll_paged_terminates [of allTags history arr ts ps]
  show ?thesis by blast
qed

section \<open>The shared page counter\<close>

lemma long_tags: "getTags longService = Some (Inr longTags)"
  by (simp add: getTags_def getTags_loop.simps longService_def pagedService_def pageOf_def
      pageSize_def longTags_def)

lemma long_resolve:
  "(case getHistory (longSha 0) longService [] of
      Some (Inr history, heap, ps) \<Rightarrow>
        map_option fst (findClosestTag longService longTags history heap ps)
    | _ \<Rightarrow> None) = Some (Inl (Error (missMessage (longSha 100) 2)))"
  by code_simp

lemma long_tag_distance:
  "longTags (longSha 100) = Some ''v1.0.0'' \<and>
   ancestorsAt (setCommits (longHistory (longSha 0)) Map.empty) (longSha 0) 100 = [longSha 100]"
  by code_simp

text \<open>
  C2 fails on the code: on the linear history of 101 commits the root \<open>c100\<close> carries the
  tag \<open>v1.0.0\<close> and is the one commit 100 parent edges from \<open>c0\<close>, so the claim gives
  the tag \<open>v1.0.0\<close> at distance 100.  \<^verbatim>\<open>findClosestTag\<close>, called as \<^verbatim>\<open>run\<close> calls it,
  throws the cache-miss error for \<open>c100\<close> instead: the traversal has to resolve \<open>c100\<close>,
  which page 0 of the listing from \<open>c0\<close> did not hold, and the page counter that all
  resolutions share is past 0.
\<close>

theorem findClosestTag_long_history_throws:
  "getTags longService = Some (Inr longTags) \<and>
   longTags (longSha 100) = Some ''v1.0.0'' \<and>
   ancestorsAt (setCommits (longHistory (longSha 0)) Map.empty) (longSha 0) 100 = [longSha 100] \<and>
   (\<exists>history heap ps.
      getHistory (longSha 0) longService [] = Some (Inr history, heap, ps) \<and>
      map_option fst (findClosestTag longService longTags history heap ps) =
        Some (Inl (Error (missMessage (longSha 100) 2))))"
proof -
  from long_resolve have
    "\<exists>history heap ps.
      getHistory (longSha 0) longService [] = Some (Inr history, heap, ps) \<and>
      map_option fst (findClosestTag longService longTags history heap ps) =
        Some (Inl (Error (missMessage (longSha 100) 2)))"
    by (auto split: option.splits sum.splits prod.splits)
  with long_tags long_tag_distance show ?thesis by blast
qed

text \<open>
  C4 fails on the code: on the linear history of 101 commits, \<^verbatim>\<open>getHistory\<close> resolves
  \<open>c0\<close> with page 0 of the listing from \<open>c0\<close>, which holds \<open>c0\<close> to \<open>c99\<close>, and leaves
  the page counter at 1.  When the traversal reaches the parent \<open>c100\<close> of \<open>c99\<close>, the
  provider asks for page 1 of the listing from \<open>c100\<close>, which is empty, and throws the
  cache-miss error, which \<^verbatim>\<open>run\<close> reports; yet page 0 of that listing is \<open>c100\<close>
  itself.
\<close>

theorem run_long_history_fails:
  "run longService (longSha 0) [] world0 =
     Some \<lparr>outputs = [], envFile = [], failure = Some (missMessage (longSha 100) 2)\<rparr> \<and>
   pageOf pageSize 0 (longHistory (longSha 100)) = [longCommit 100]"
proof -
  have "pageOf pageSize 0 (longHistory (longSha 100)) = [longCommit 100]"
    by code_simp
  moreover from long_resolve long_tags
  have "run longService (longSha 0) [] world0 =
     Some \<lparr>outputs = [], envFile = [], failure = Some (missMessage (longSha 100) 2)\<rparr>"
    by (auto simp add: run_def runWith_def catchError_def setFailed_def world0_def
        split: option.splits sum.splits prod.splits)
  ultimately show ?thesis by blast
qed


section \<open>Independence of the heap\<close>

lemma alike_sym:
  assumes "alike heap1 todo1 heap2 todo2"
  shows "alike heap2 todo2 heap1 todo1"
proof -
  from assms have "list_all2
       (rel_option (\<lambda>r1 r2. r1 < length heap1 \<and> r2 < length heap2 \<and> heap1 ! r1 = heap2 ! r2))
       todo1 todo2"
    by (simp add: alike_def)
  then have "list_all2
       (rel_option (\<lambda>r2 r1. r2 < length heap2 \<and> r1 < length heap1 \<and> heap2 ! r2 = heap1 ! r1))
       todo2 todo1"
    by (induction rule: list_all2_induct) (auto elim: option.rel_cases)
  with assms show ?thesis by (simp add: alike_def)
qed

lemma alike_Nil1: "alike heap1 [] heap2 todo2 \<Longrightarrow> todo2 = []"
  by (simp add: alike_def)

lemma alike_marker:
  assumes "alike heap1 (None # rest1) heap2 todo2"
  shows "\<exists>rest2. todo2 = None # rest2 \<and> alike heap1 (rest1 @ [None]) heap2 (rest2 @ [None]) "
proof -
  from assms obtain x rest2 where todo2: "todo2 = x # rest2"
    by (cases todo2) (auto simp add: alike_def)
  with assms have x: "x = None" by (auto simp add: alike_def)
  from assms todo2 x have "alike heap1 (rest1 @ [None]) heap2 (rest2 @ [None])"
    by (simp add: alike_def list_all2_appendI)
  with todo2 x show ?thesis by simp
qed

lemma alike_head:
  assumes "alike heap1 (Some r1 # rest1) heap2 todo2"
  shows "\<exists>r2 rest2. todo2 = Some r2 # rest2 \<and> r1 < length heap1 \<and> r2 < length heap2 \<and>
           heap1 ! r1 = heap2 ! r2 \<and> alike heap1 rest1 heap2 rest2 \<and>
           Some r1 \<notin> set rest1 \<and> Some r2 \<notin> set rest2"
proof -
  from assms obtain x rest2 where todo2: "todo2 = x # rest2"
    by (cases todo2) (auto simp add: alike_def)
  with assms obtain r2 where x: "x = Some r2"
    and r: "r1 < length heap1 \<and> r2 < length heap2 \<and> heap1 ! r1 = heap2 ! r2"
    by (auto simp add: alike_def elim: option.rel_cases)
  from assms todo2 x have "alike heap1 rest1 heap2 rest2 \<and> Some r1 \<notin> set rest1 \<and> Some r2 \<notin> set rest2"
    by (simp add: alike_def)
  with todo2 x r show ?thesis by simp
qed

lemma alike_expand:
  assumes al: "alike heap1 rest1 heap2 rest2"
    and r1: "r1 < length heap1" "Some r1 \<notin> set rest1"
    and r2: "r2 < length heap2" "Some r2 \<notin> set rest2"
  shows "alike (heap1[r1 := n1] @ new) (rest1 @ map Some [length heap1..<length heap1 + length new])
               (heap2[r2 := n2] @ new) (rest2 @ map Some [length heap2..<length heap2 + length new])"
proof -
  let ?h1 = "heap1[r1 := n1] @ new" and ?h2 = "heap2[r2 := n2] @ new"
  let ?ns1 = "[length heap1..<length heap1 + length new]"
  let ?ns2 = "[length heap2..<length heap2 + length new]"
  let ?R = "\<lambda>heap1 heap2 r1 r2. r1 < length heap1 \<and> r2 < length heap2 \<and> heap1 ! r1 = heap2 ! r2"
  from al have old: "list_all2 (rel_option (?R heap1 heap2)) rest1 rest2"
    and d1: "distinct (filter (\<lambda>x. x \<noteq> None) rest1)"
    and d2: "distinct (filter (\<lambda>x. x \<noteq> None) rest2)"
    by (simp_all add: alike_def)
  have "list_all2 (rel_option (?R ?h1 ?h2)) rest1 rest2"
    using old
  proof (rule list.rel_mono_strong)
    fix a b assume a: "a \<in> set rest1" and b: "b \<in> set rest2"
      and ab: "rel_option (?R heap1 heap2) a b"
    show "rel_option (?R ?h1 ?h2) a b"
    proof (cases a)
      case None
      with ab show ?thesis by (cases b) simp_all
    next
      case (Some x)
      with ab obtain y where y: "b = Some y" and xy: "?R heap1 heap2 x y"
        by (cases b) simp_all
      from a Some r1 have "x \<noteq> r1" by auto
      moreover from b y r2 have "y \<noteq> r2" by auto
      ultimately have "?R ?h1 ?h2 x y" using xy by (simp add: nth_append)
      with Some y show ?thesis by simp
    qed
  qed
  moreover have "list_all2 (rel_option (?R ?h1 ?h2)) (map Some ?ns1) (map Some ?ns2)"
    by (simp add: list_all2_conv_all_nth nth_append)
  ultimately have 1: "list_all2 (rel_option (?R ?h1 ?h2)) (rest1 @ map Some ?ns1) (rest2 @ map Some ?ns2)"
    by (rule list_all2_appendI)
  have bound1: "x < length heap1" if "Some x \<in> set rest1" for x
  proof -
    from that old obtain b where "rel_option (?R heap1 heap2) (Some x) b"
      by (auto simp add: list_all2_conv_all_nth in_set_conv_nth)
    then show ?thesis by (cases b) simp_all
  qed
  have bound2: "y < length heap2" if "Some y \<in> set rest2" for y
  proof -
    from that old obtain a where "rel_option (?R heap1 heap2) a (Some y)"
      by (auto simp add: list_all2_conv_all_nth in_set_conv_nth)
    then show ?thesis by (cases a) simp_all
  qed
  have 2: "distinct (filter (\<lambda>x. x \<noteq> None) (rest1 @ map Some ?ns1))"
    using d1 by (auto simp add: distinct_map filter_map comp_def dest!: bound1)
  have 3: "distinct (filter (\<lambda>x. x \<noteq> None) (rest2 @ map Some ?ns2))"
    using d2 by (auto simp add: distinct_map filter_map comp_def dest!: bound2)
  from 1 2 3 show ?thesis by (simp add: alike_def)
qed

lemma parents_update:
  "r < length heap \<Longrightarrow>
   parents octokit r (heap[r := n]) ps =
     (case awaitAll octokit (map (enter ps) (parentSha n)) ps of
        None \<Rightarrow> None
      | Some (Inl e, ps') \<Rightarrow> Some (Inl e, heap[r := n], ps')
      | Some (Inr cs, ps') \<Rightarrow>
          Some (Inr [length heap..<length heap + length cs],
                heap[r := n] @ map newLazyGitCommit cs, ps'))"
  by (simp add: parents_def split: option.splits sum.splits prod.splits)

lemma loop_alike_Some:
  assumes "findClosestTag_loop octokit tags heap1 ps todo1 depth = Some y"
    and "alike heap1 todo1 heap2 todo2"
  shows "\<exists>heap2'. findClosestTag_loop octokit tags heap2 ps todo2 depth = Some (fst y, heap2')"
proof -
  let ?P = "\<lambda>octokit tags heap1 ps todo1 depth (y::(thrown + found) \<times> LazyGitCommit list).
      \<forall>heap2 todo2. alike heap1 todo1 heap2 todo2 \<longrightarrow>
        (\<exists>heap2'. findClosestTag_loop octokit tags heap2 ps todo2 depth = Some (fst y, heap2'))"
  have "?P octokit tags heap1 ps todo1 depth y"
  proof (rule findClosestTag_loop_induct [where P = ?P, OF _ assms(1)], intro allI impI)
    fix loop octokit tags heap1 ps todo1 depth y heap2 todo2
    assume IH: "\<And>octokit tags heap1 ps todo1 depth y.
                  loop octokit tags heap1 ps todo1 depth = Some y \<Longrightarrow>
                  ?P octokit tags heap1 ps todo1 depth y"
      and body: "(case todo1 of
          [] \<Rightarrow> Some (Inr \<lparr>tag = [], distance = - 1\<rparr>, heap1)
        | None # rest \<Rightarrow> loop octokit tags heap1 ps (rest @ [None]) (depth + 1)
        | Some head # rest \<Rightarrow>
            if visited (heap1 ! head) then loop octokit tags heap1 ps rest depth
            else
              (case tags (sha (heap1 ! head)) of
                 Some candidateTag \<Rightarrow> Some (Inr \<lparr>tag = candidateTag, distance = int depth\<rparr>, heap1)
               | None \<Rightarrow>
                   (case parents octokit head (heap1[head := (heap1 ! head)\<lparr>visited := True\<rparr>]) ps of
                      None \<Rightarrow> None
                    | Some (Inl e, heap', ps') \<Rightarrow> Some (Inl e, heap')
                    | Some (Inr ns, heap', ps') \<Rightarrow>
                        loop octokit tags heap' ps' (rest @ map Some ns) depth))) = Some y"
      and al: "alike heap1 todo1 heap2 todo2"
    show "\<exists>heap2'. findClosestTag_loop octokit tags heap2 ps todo2 depth = Some (fst y, heap2')"
    proof (cases todo1)
      case Nil
      with al have "todo2 = []" by (simp add: alike_Nil1)
      with Nil body show ?thesis by (subst findClosestTag_loop_unfold) auto
    next
      case (Cons x rest1)
      show ?thesis
      proof (cases x)
        case None
        with Cons al alike_marker [of heap1 rest1 heap2 todo2] obtain rest2 where
          todo2: "todo2 = None # rest2" and al': "alike heap1 (rest1 @ [None]) heap2 (rest2 @ [None])"
          by blast
        from Cons None body have "loop octokit tags heap1 ps (rest1 @ [None]) (depth + 1) = Some y"
          by simp
        from IH [OF this] al' obtain heap2' where
          "findClosestTag_loop octokit tags heap2 ps (rest2 @ [None]) (depth + 1) = Some (fst y, heap2')"
          by blast
        with todo2 show ?thesis by (subst findClosestTag_loop_unfold) simp
      next
        case (Some r1)
        with Cons al alike_head [of heap1 r1 rest1 heap2 todo2] obtain r2 rest2 where
          todo2: "todo2 = Some r2 # rest2" and r1: "r1 < length heap1" and r2: "r2 < length heap2"
          and same: "heap1 ! r1 = heap2 ! r2" and al': "alike heap1 rest1 heap2 rest2"
          and n1: "Some r1 \<notin> set rest1" and n2: "Some r2 \<notin> set rest2"
          by blast
        show ?thesis
        proof (cases "visited (heap1 ! r1)")
          case True
          with Cons Some body have "loop octokit tags heap1 ps rest1 depth = Some y" by simp
          from IH [OF this] al' obtain heap2' where
            "findClosestTag_loop octokit tags heap2 ps rest2 depth = Some (fst y, heap2')"
            by blast
          with todo2 True same show ?thesis by (subst findClosestTag_loop_unfold) simp
        next
          case False
          note unvisited = False
          show ?thesis
          proof (cases "tags (sha (heap1 ! r1))")
            case (Some t)
            with Cons \<open>x = Some r1\<close> unvisited body
            have "y = (Inr \<lparr>tag = t, distance = int depth\<rparr>, heap1)" by simp
            with todo2 unvisited Some same show ?thesis
              by (subst findClosestTag_loop_unfold) simp
          next
            case None
            let ?n = "(heap1 ! r1)\<lparr>visited := True\<rparr>"
            let ?A = "awaitAll octokit (map (enter ps) (parentSha ?n)) ps"
            have p1: "parents octokit r1 (heap1[r1 := ?n]) ps =
              (case ?A of
                 None \<Rightarrow> None
               | Some (Inl e, ps') \<Rightarrow> Some (Inl e, heap1[r1 := ?n], ps')
               | Some (Inr cs, ps') \<Rightarrow>
                   Some (Inr [length heap1..<length heap1 + length cs],
                         heap1[r1 := ?n] @ map newLazyGitCommit cs, ps'))"
              using r1 by (rule parents_update)
            have p2: "parents octokit r2 (heap2[r2 := ?n]) ps =
              (case ?A of
                 None \<Rightarrow> None
               | Some (Inl e, ps') \<Rightarrow> Some (Inl e, heap2[r2 := ?n], ps')
               | Some (Inr cs, ps') \<Rightarrow>
                   Some (Inr [length heap2..<length heap2 + length cs],
                         heap2[r2 := ?n] @ map newLazyGitCommit cs, ps'))"
              using r2 by (rule parents_update)
            from Cons \<open>x = Some r1\<close> unvisited None body
            have body': "(case parents octokit r1 (heap1[r1 := ?n]) ps of
                      None \<Rightarrow> None
                    | Some (Inl e, heap', ps') \<Rightarrow> Some (Inl e, heap')
                    | Some (Inr ns, heap', ps') \<Rightarrow>
                        loop octokit tags heap' ps' (rest1 @ map Some ns) depth) = Some y"
              by simp
            have unfold2: "findClosestTag_loop octokit tags heap2 ps todo2 depth =
                  (case parents octokit r2 (heap2[r2 := ?n]) ps of
                      None \<Rightarrow> None
                    | Some (Inl e, heap', ps') \<Rightarrow> Some (Inl e, heap')
                    | Some (Inr ns, heap', ps') \<Rightarrow>
                        findClosestTag_loop octokit tags heap' ps' (rest2 @ map Some ns) depth)"
              using todo2 unvisited None same by (subst findClosestTag_loop_unfold) simp
            show ?thesis
            proof (cases ?A)
              case None
              with body' p1 show ?thesis by simp
            next
              case (Some res)
              obtain out ps' where res: "res = (out, ps')" by (cases res)
              show ?thesis
              proof (cases out)
                case (Inl e)
                with Some res body' p1 have "fst y = Inl e" by auto
                with Some res Inl p2 unfold2 show ?thesis by simp
              next
                case (Inr cs)
                let ?new = "map newLazyGitCommit cs"
                from Some res Inr body' p1
                have "loop octokit tags (heap1[r1 := ?n] @ ?new) ps'
                        (rest1 @ map Some [length heap1..<length heap1 + length cs]) depth = Some y"
                  by simp
                moreover from alike_expand [OF al' r1 n1 r2 n2, of ?n ?new ?n]
                have "alike (heap1[r1 := ?n] @ ?new)
                        (rest1 @ map Some [length heap1..<length heap1 + length cs])
                        (heap2[r2 := ?n] @ ?new)
                        (rest2 @ map Some [length heap2..<length heap2 + length cs])"
                  by simp
                ultimately obtain heap2' where
                  "findClosestTag_loop octokit tags (heap2[r2 := ?n] @ ?new) ps'
                     (rest2 @ map Some [length heap2..<length heap2 + length cs]) depth =
                   Some (fst y, heap2')"
                  using IH by blast
                with Some res Inr p2 unfold2 show ?thesis by simp
              qed
            qed
          qed
        qed
      qed
    qed
  qed
  with assms(2) show ?thesis by blast
qed

lemma loop_alike:
  assumes "alike heap1 todo1 heap2 todo2"
  shows "map_option fst (findClosestTag_loop octokit tags heap1 ps todo1 depth) =
         map_option fst (findClosestTag_loop octokit tags heap2 ps todo2 depth)"
proof (cases "findClosestTag_loop octokit tags heap1 ps todo1 depth")
  case None
  show ?thesis
  proof (cases "findClosestTag_loop octokit tags heap2 ps todo2 depth")
    case None
    with \<open>findClosestTag_loop octokit tags heap1 ps todo1 depth = None\<close> show ?thesis by simp
  next
    case (Some y)
    from loop_alike_Some [OF Some alike_sym [OF assms]] None show ?thesis by simp
  qed
next
  case (Some y)
  from loop_alike_Some [OF Some assms] Some show ?thesis by auto
qed

lemma result_cases_cong:
  assumes "map_option fst a = map_option fst b"
  shows "(case a of None \<Rightarrow> None | Some (Inl e, heap'') \<Rightarrow> g e | Some (Inr r, heap'') \<Rightarrow> f r) =
         (case b of None \<Rightarrow> None | Some (Inl e, heap'') \<Rightarrow> g e | Some (Inr r, heap'') \<Rightarrow> f r)"
  using assms by (cases a; cases b) (auto split: sum.splits)

lemma history_cases_alike:
  "(case getHistory GITHUB_SHA octokit heap1 of
      None \<Rightarrow> None
    | Some (Inl e, heap', ps) \<Rightarrow> g e
    | Some (Inr history, heap', ps) \<Rightarrow>
        (case findClosestTag octokit tags history heap' ps of
           None \<Rightarrow> None
         | Some (Inl e, heap'') \<Rightarrow> g e
         | Some (Inr r, heap'') \<Rightarrow> f r)) =
   (case getHistory GITHUB_SHA octokit heap2 of
      None \<Rightarrow> None
    | Some (Inl e, heap', ps) \<Rightarrow> g e
    | Some (Inr history, heap', ps) \<Rightarrow>
        (case findClosestTag octokit tags history heap' ps of
           None \<Rightarrow> None
         | Some (Inl e, heap'') \<Rightarrow> g e
         | Some (Inr r, heap'') \<Rightarrow> f r))"
proof (cases "provider octokit GITHUB_SHA \<lparr>commits = Map.empty, page = 0\<rparr>")
  case None
  then show ?thesis by (simp add: getHistory_def)
next
  case (Some res)
  obtain out ps where res: "res = (out, ps)" by (cases res)
  show ?thesis
  proof (cases out)
    case (Inl e)
    with Some res show ?thesis by (simp add: getHistory_def)
  next
    case (Inr c)
    have "alike (heap1 @ [newLazyGitCommit c]) [Some (length heap1), None]
                (heap2 @ [newLazyGitCommit c]) [Some (length heap2), None]"
      by (simp add: alike_def)
    then have "map_option fst
                 (findClosestTag octokit tags (length heap1) (heap1 @ [newLazyGitCommit c]) ps) =
               map_option fst
                 (findClosestTag octokit tags (length heap2) (heap2 @ [newLazyGitCommit c]) ps)"
      unfolding findClosestTag_def by (rule loop_alike)
    from result_cases_cong [OF this, of g f] Some res Inr show ?thesis
      by (simp add: getHistory_def)
  qed
qed

text \<open>
  C9: \<^verbatim>\<open>run\<close> builds the tag index, the cache and the page counter anew, and the only
  state it shares with an earlier invocation is the heap of objects.  Whatever objects the
  heap holds, whatever their \<^verbatim>\<open>visited\<close> fields, two invocations against the same
  service end alike: both run forever, or both leave the same outputs, environment file
  and failure.
\<close>

theorem run_deterministic:
  "run octokit GITHUB_SHA heap1 w = run octokit GITHUB_SHA heap2 w"
proof (cases "getTags octokit")
  case None
  then show ?thesis by (simp add: run_def runWith_def)
next
  case (Some res)
  show ?thesis
  proof (cases res)
    case (Inl e)
    with Some show ?thesis by (simp add: run_def runWith_def)
  next
    case (Inr tags)
    from history_cases_alike
      [where GITHUB_SHA = GITHUB_SHA and octokit = octokit and ?heap1.0 = heap1
        and ?heap2.0 = heap2 and tags = tags and g = "\<lambda>e. Some (catchError e w)"
        and f = "\<lambda>r. let version = versionOf r GITHUB_SHA
             in Some (appendFileSync (''VERSION='' @ version) (setOutput ''version'' version w))"]
      Some Inr
    show ?thesis by (simp add: run_def runWith_def)
  qed
qed

end
